theory Spec2Isabelle
  imports Complex_Main "HOL-Library.Product_Lexorder"
begin

section \<open>Errors and NumPy-style indexing\<close>

text \<open>
  The exceptions the modelled functions can raise.  A function that can raise returns
  \<open>error + 'a\<close>, with \<open>Inl\<close> for the exception.
\<close>

datatype error = ValueError | IndexError | ZeroDivisionError

text \<open>
  An index \<open>i\<close> into an array of length \<open>n\<close> is accepted by NumPy when \<open>-n \<le> i < n\<close>;
  a negative index counts from the end.  Anything else raises IndexError.
\<close>

definition np_ok :: "'a list \<Rightarrow> int \<Rightarrow> bool" where
  "np_ok xs i = (- int (length xs) \<le> i \<and> i < int (length xs))"

definition np_pos :: "'a list \<Rightarrow> int \<Rightarrow> nat" where
  "np_pos xs i = nat (if i < 0 then i + int (length xs) else i)"

definition np_nth :: "'a list \<Rightarrow> int \<Rightarrow> 'a" where
  "np_nth xs i = xs ! np_pos xs i"

section \<open>Strain evaluator\<close>

text \<open>
  Floating-point numbers are idealised as real numbers, and the two infinities an energy
  function can return are separate constructors.  A position is a pair of coordinates, a
  position vector a list of positions (the n-by-2 array of the source).
\<close>

type_synonym point = "real \<times> real"

datatype efloat = NegInf | Fin real | PosInf

text \<open>
  One row of \<open>cell_definitions\<close> as \<open>enumerate_cells\<close> returns it: the section and the two
  grid indices (columns 0 to 2), then the node indices of the west, east, south and north
  corner (columns 3 to 6).
\<close>

record cell =
  cell_h :: int
  cell_i :: int
  cell_j :: int
  west_node :: int
  east_node :: int
  south_node :: int
  north_node :: int

text \<open>
  The arithmetic of \<open>compute_principal_strains\<close> for one cell: \<open>dl\<close> is \<open>d\<Lambda>[i]\<close>,
  \<open>dp\<close> is \<open>d\<Phi>[i]\<close>, \<open>scale\<close> the cell's entry of \<open>cell_scales\<close>.
\<close>

definition strain_pair ::
  "point \<Rightarrow> point \<Rightarrow> point \<Rightarrow> point \<Rightarrow> real \<Rightarrow> real \<Rightarrow> real \<Rightarrow> real \<times> real" where
  "strain_pair west east south north dl dp scale =
     (let dxdL = (fst east - fst west) / (dl / scale);
          dydL = (snd east - snd west) / (dl / scale);
          dxdP = (fst north - fst south) / (dp / scale);
          dydP = (snd north - snd south) / (dp / scale);
          trace = sqrt ((dxdL + dydP)\<^sup>2 + (dxdP - dydL)\<^sup>2) / 2;
          antitrace = sqrt ((dxdL - dydP)\<^sup>2 + (dxdP + dydL)\<^sup>2) / 2
      in (trace + antitrace, trace - antitrace))"

definition cell_strain :: "point list \<Rightarrow> real list \<Rightarrow> real list \<Rightarrow> cell \<Rightarrow> real \<Rightarrow> real \<times> real" where
  "cell_strain positions dPhi dLam c scale =
     strain_pair (np_nth positions (west_node c)) (np_nth positions (east_node c))
       (np_nth positions (south_node c)) (np_nth positions (north_node c))
       (np_nth dLam (cell_i c)) (np_nth dPhi (cell_i c)) scale"

text \<open>
  \<open>compute_principal_strains\<close> works on whole arrays.  An index array with an entry out of
  range raises IndexError before anything is computed, and \<open>cell_scales\<close> has to have one
  entry per cell (a mismatch is NumPy's broadcasting ValueError; broadcasting a
  one-element array is not modelled).  The checks come in the order of the source's
  statements.  The result is the pair of arrays (major strains, minor strains).
\<close>

definition compute_principal_strains ::
  "point list \<Rightarrow> cell list \<Rightarrow> real list \<Rightarrow> real list \<Rightarrow> real list
     \<Rightarrow> error + (real list \<times> real list)" where
  "compute_principal_strains positions cell_definitions cell_scales dPhi dLam =
     (if \<not> (\<forall>c \<in> set cell_definitions.
               np_ok positions (west_node c) \<and> np_ok positions (east_node c)
               \<and> np_ok dLam (cell_i c))
      then Inl IndexError
      else if length cell_scales \<noteq> length cell_definitions then Inl ValueError
      else if \<not> (\<forall>c \<in> set cell_definitions.
               np_ok positions (south_node c) \<and> np_ok positions (north_node c)
               \<and> np_ok dPhi (cell_i c))
      then Inl IndexError
      else let ab = map2 (cell_strain positions dPhi dLam) cell_definitions cell_scales
           in Inr (map fst ab, map snd ab))"

section \<open>Sparse linear operators\<close>

text \<open>
  Modelled from the spec: the class \<open>DenseSparseArray\<close> (module \<open>sparse\<close>) is not part of
  the sources at hand.  Section 4.2 of the specification describes the two operators that
  \<open>mesh_skeleton\<close> builds from it: \<open>identity(n)\<close> restricted to a boolean mask is a
  row-selection operator, and \<open>from_coordinates(shape, referenceIndices, weights)\<close> is an
  operator whose output row \<open>k\<close> is the weighted sum of the input rows named by the
  \<open>k\<close>-th row of reference indices.  \<open>Scalar\<close> is the class of that name in \<open>util.py\<close>,
  whose \<open>__matmul__\<close> multiplies by the stored value.
\<close>

datatype operator =
    Scalar real
  | Restriction "bool list"
  | FromCoordinates nat "int list list" "real list list"

definition scale_point :: "real \<Rightarrow> point \<Rightarrow> point" where
  "scale_point w p = (w * fst p, w * snd p)"

definition add_point :: "point \<Rightarrow> point \<Rightarrow> point" where
  "add_point p q = (fst p + fst q, snd p + snd q)"

definition weighted_sum :: "point list \<Rightarrow> int list \<Rightarrow> real list \<Rightarrow> point" where
  "weighted_sum v refs weights =
     foldr add_point (map2 (\<lambda>r w. scale_point w (np_nth v r)) refs weights) (0, 0)"

fun matmul :: "operator \<Rightarrow> point list \<Rightarrow> point list" where
  "matmul (Scalar value) other = map (scale_point value) other"
| "matmul (Restriction selected) other = map fst (filter snd (zip other selected))"
| "matmul (FromCoordinates n refs weights) other =
     map2 (weighted_sum other) refs weights"

section \<open>Energy functions\<close>

text \<open>
  The three objective functions are closures inside \<open>create_map_projection\<close>; the record
  holds the variables they capture.
\<close>

record energy_env =
  restore :: operator
  cell_definitions :: "cell list"
  cell_scales :: "real list"
  cell_weights :: "real list"
  dPhi :: "real list"
  dLam :: "real list"

definition strains_of :: "energy_env \<Rightarrow> point list \<Rightarrow> error + (real list \<times> real list)" where
  "strains_of env positions =
     compute_principal_strains (matmul (restore env) positions)
       (cell_definitions env) (cell_scales env) (dPhi env) (dLam env)"

text \<open>
  The weighted sum \<open>(terms*cell_weights).sum()\<close>: the two arrays must have the same
  length (otherwise the product raises the broadcasting ValueError).
\<close>

definition weighted_total :: "real list \<Rightarrow> real list \<Rightarrow> error + efloat" where
  "weighted_total terms weights =
     (if length terms \<noteq> length weights then Inl ValueError
      else Inr (Fin (sum_list (map2 (\<lambda>t w. t * w) terms weights))))"

definition compute_energy_aggressive :: "energy_env \<Rightarrow> point list \<Rightarrow> error + efloat" where
  "compute_energy_aggressive env positions =
     (case strains_of env positions of
        Inl e \<Rightarrow> Inl e
      | Inr (a, b) \<Rightarrow>
          if (\<forall>x \<in> set a. x > 0) \<and> (\<forall>x \<in> set b. x > 0) then Inr NegInf
          else if (\<exists>x \<in> set a. x < -100) \<or> (\<exists>x \<in> set b. x < -100) then Inr PosInf
          else Inr (Fin (sum_list (map2 (\<lambda>x y. exp (-6 * x) + exp (-6 * y)) a b))))"

definition compute_energy_lenient :: "energy_env \<Rightarrow> point list \<Rightarrow> error + efloat" where
  "compute_energy_lenient env positions =
     (case strains_of env positions of
        Inl e \<Rightarrow> Inl e
      | Inr (a, b) \<Rightarrow>
          if (\<forall>x \<in> set a. x > 0) \<and> (\<forall>x \<in> set b. x > 0) then Inr NegInf
          else weighted_total
                 (map2 (\<lambda>x y. (x + y - 2)\<^sup>2 + 2 * (x - y)\<^sup>2) a b) (cell_weights env))"

definition compute_energy_strict :: "energy_env \<Rightarrow> point list \<Rightarrow> error + efloat" where
  "compute_energy_strict env positions =
     (case strains_of env positions of
        Inl e \<Rightarrow> Inl e
      | Inr (a, b) \<Rightarrow>
          if (\<exists>x \<in> set a. x \<le> 0) \<or> (\<exists>x \<in> set b. x \<le> 0) then Inr PosInf
          else weighted_total
                 (map2 (\<lambda>x y. ((x * y)\<^sup>2 - 1) / 2 - ln (x * y) + 2 * (x - y)\<^sup>2) a b)
                 (cell_weights env))"

section \<open>Skeleton builder\<close>

text \<open>
  A \<open>for\<close> loop whose body can raise: the exception ends the loop.
\<close>

fun for_each :: "('a \<Rightarrow> 's \<Rightarrow> error + 's) \<Rightarrow> 'a list \<Rightarrow> 's \<Rightarrow> error + 's" where
  "for_each body [] s = Inr s"
| "for_each body (x # xs) s =
     (case body x s of Inl e \<Rightarrow> Inl e | Inr s' \<Rightarrow> for_each body xs s')"

text \<open>
  The lookup table is the three-dimensional integer array \<open>lookup_table[h, i, j]\<close>
  (section, row, column), here a list of sections, each a list of rows of equal length.
  An entry is a node index or \<open>-1\<close> for no node.
\<close>

type_synonym lookup = "int list list list"

definition entry :: "lookup \<Rightarrow> nat \<Rightarrow> nat \<Rightarrow> nat \<Rightarrow> int" where
  "entry t h i j = t ! h ! i ! j"

definition n_sections :: "lookup \<Rightarrow> nat" where
  "n_sections t = length t"

definition n_rows :: "lookup \<Rightarrow> nat" where
  "n_rows t = (case t of [] \<Rightarrow> 0 | s # _ \<Rightarrow> length s)"

definition n_cols :: "lookup \<Rightarrow> nat" where
  "n_cols t = (case t of [] \<Rightarrow> 0 | s # _ \<Rightarrow> (case s of [] \<Rightarrow> 0 | r # _ \<Rightarrow> length r))"

text \<open>
  An assignment \<open>xs[i] = v\<close> to an array; the callers check \<open>np_ok xs i\<close> first.
\<close>

definition np_set :: "'a list \<Rightarrow> int \<Rightarrow> 'a \<Rightarrow> 'a list" where
  "np_set xs i v = xs[np_pos xs i := v]"

subsection \<open>follow_graph and get_interpolation_weits\<close>

text \<open>
  The \<open>while\<close> loop of \<open>follow_graph\<close>, on the arrays \<open>state\<close> and \<open>distance_traveld\<close>.
  \<open>arrived = until[state]\<close> is recomputed from \<open>state\<close> at the head of every round, which
  is what the source's assignments before the loop and at the end of its body amount to.
  The loop need not terminate: \<open>None\<close> is a run that never returns.
\<close>

partial_function (option) follow_graph_loop ::
  "int list \<Rightarrow> bool list \<Rightarrow> int list \<Rightarrow> real list \<Rightarrow> (error + int list \<times> real list) option" where
  "follow_graph_loop progression until state distance_traveld =
     (if \<not> (\<forall>s \<in> set state. np_ok until s) then Some (Inl IndexError)
      else if \<forall>s \<in> set state. np_nth until s then Some (Inr (state, distance_traveld))
      else if \<not> (\<forall>s \<in> set state. np_ok progression s) then Some (Inl IndexError)
      else if \<exists>s \<in> set state. \<not> np_nth until s \<and> np_nth progression s = s
      then Some (Inl ValueError)
      else follow_graph_loop progression until
             (map (\<lambda>s. if np_nth until s then s else np_nth progression s) state)
             (map2 (\<lambda>s d. if np_nth until s then d else d + 1) state distance_traveld))"

declare follow_graph_loop.simps [code]

definition follow_graph ::
  "int list \<Rightarrow> int list \<Rightarrow> bool list \<Rightarrow> (error + int list \<times> real list) option" where
  "follow_graph progression frum until =
     follow_graph_loop progression until frum (replicate (length frum) 0)"

text \<open>
  \<open>get_interpolation_weits\<close>; the two distance arrays have the same length at every call.
\<close>

definition get_interpolation_weits :: "real list \<Rightarrow> real list \<Rightarrow> real list \<times> real list" where
  "get_interpolation_weits distance_a distance_b =
     (let weits_a = map2 (\<lambda>a b. if a + b \<noteq> 0 then b / (a + b) else 1) distance_a distance_b;
          weits_b = map (\<lambda>w. 1 - w) weits_a
      in (weits_a, weits_b))"

subsection \<open>The connection graphs\<close>

record neighbors =
  east_neibor :: "int list"
  west_neibor :: "int list"
  north_neibor :: "int list"
  south_neibor :: "int list"

text \<open>
  The body of the first triple loop of \<open>mesh_skeleton\<close> at position \<open>(h, i, j)\<close>.  The four
  arrays have the same length, so the four assignments share one index check.
\<close>

definition link_node :: "lookup \<Rightarrow> nat \<times> nat \<times> nat \<Rightarrow> neighbors \<Rightarrow> error + neighbors" where
  "link_node t = (\<lambda>(h, i, j) nb.
     let v = entry t h i j;
         has_west = (1 \<le> j \<and> entry t h i (j - 1) \<noteq> -1);
         has_east = (j + 1 < n_cols t \<and> entry t h i (j + 1) \<noteq> -1);
         has_south = (1 \<le> i \<and> entry t h (i - 1) j \<noteq> -1);
         has_north = (i + 1 < n_rows t \<and> entry t h (i + 1) j \<noteq> -1)
     in if v = -1 then Inr nb
        else if (has_west \<or> has_east \<or> has_south \<or> has_north) \<and> \<not> np_ok (west_neibor nb) v
        then Inl IndexError
        else Inr \<lparr>east_neibor =
                    (if has_east then np_set (east_neibor nb) v (entry t h i (j + 1))
                     else east_neibor nb),
                  west_neibor =
                    (if has_west then np_set (west_neibor nb) v (entry t h i (j - 1))
                     else west_neibor nb),
                  north_neibor =
                    (if has_north then np_set (north_neibor nb) v (entry t h (i + 1) j)
                     else north_neibor nb),
                  south_neibor =
                    (if has_south then np_set (south_neibor nb) v (entry t h (i - 1) j)
                     else south_neibor nb)\<rparr>)"

definition connection_graphs :: "lookup \<Rightarrow> nat \<Rightarrow> error + neighbors" where
  "connection_graphs t n_full =
     for_each (link_node t)
       (List.product [0..<n_sections t] (List.product [0..<n_rows t] [0..<n_cols t]))
       \<lparr>east_neibor = replicate n_full (-1), west_neibor = replicate n_full (-1),
        north_neibor = replicate n_full (-1), south_neibor = replicate n_full (-1)\<rparr>"

subsection \<open>Choosing the key nodes\<close>

text \<open>
  The latitudes \<open>\<phi>\<close> enter \<open>mesh_skeleton\<close> only through \<open>\<phi>.size\<close> and through the column
  stride \<open>east_west_factor = int(round(factor/cos(\<phi>[i])))\<close> of each row, a floating-point
  computation.  The model takes the list of these strides, one for each entry of \<open>\<phi>\<close>, in
  place of \<open>\<phi>\<close>.  The loop body at \<open>(h, i, j)\<close> works on the pair
  \<open>(has_defined_neibors, is_defined)\<close>; the remainders by zero are Python's
  ZeroDivisionError, and \<open>mod\<close> on \<open>int\<close> rounds as Python's \<open>%\<close> does.
\<close>

definition mark_node ::
  "lookup \<Rightarrow> int \<Rightarrow> int list \<Rightarrow> nat \<Rightarrow> nat \<Rightarrow> nat \<Rightarrow> bool list \<times> bool list
     \<Rightarrow> error + bool list \<times> bool list" where
  "mark_node t factor east_west_factors h i j = (\<lambda>(has_defined_neibors, is_defined).
     let v = entry t h i j;
         east_west_factor = east_west_factors ! i
     in if v = -1 then Inr (has_defined_neibors, is_defined)
        else if factor = 0 then Inl ZeroDivisionError
        else if east_west_factor = 0 then Inl ZeroDivisionError
        else if \<not> np_ok has_defined_neibors v \<or> \<not> np_ok is_defined v then Inl IndexError
        else
          let important_row =
                (min (int i) (int (length east_west_factors) - 1 - int i) mod factor = 0);
              important_col = (int j mod east_west_factor = 0)
          in Inr (np_set has_defined_neibors v (np_nth has_defined_neibors v \<or> important_row),
                  np_set is_defined v (np_nth is_defined v \<or> important_col)))"

definition mark_row ::
  "lookup \<Rightarrow> int \<Rightarrow> int list \<Rightarrow> nat \<times> nat \<Rightarrow> bool list \<times> bool list
     \<Rightarrow> error + bool list \<times> bool list" where
  "mark_row t factor east_west_factors = (\<lambda>(h, i) marks.
     if length east_west_factors \<le> i then Inl IndexError
     else for_each (mark_node t factor east_west_factors h i) [0..<n_cols t] marks)"

text \<open>
  The marking loop followed by the three array statements that complete
  \<open>has_defined_neibors\<close> and \<open>is_defined\<close>.  \<open>has_defined_neibors\<close> has one more entry than
  there are nodes, a \<open>False\<close> that the index \<open>-1\<close> of a missing neighbour selects.
\<close>

definition choose_keys ::
  "lookup \<Rightarrow> int \<Rightarrow> int list \<Rightarrow> nat \<Rightarrow> neighbors \<Rightarrow> error + bool list \<times> bool list" where
  "choose_keys t factor east_west_factors n_full nb =
     (case for_each (mark_row t factor east_west_factors)
             (List.product [0..<n_sections t] [0..<n_rows t])
             (replicate (n_full + 1) False, replicate n_full False) of
        Inl e \<Rightarrow> Inl e
      | Inr (marked_rows, marked_cols) \<Rightarrow>
          let has_defined_neibors =
                map2 (\<lambda>d (n, s). d \<or> n = -1 \<or> s = -1) (butlast marked_rows)
                  (zip (north_neibor nb) (south_neibor nb)) @ [last marked_rows]
          in if \<not> (\<forall>e \<in> set (east_neibor nb). np_ok has_defined_neibors e)
                \<or> \<not> (\<forall>w \<in> set (west_neibor nb). np_ok has_defined_neibors w)
             then Inl IndexError
             else
               let is_defined =
                     map2 (\<lambda>d (e, w). d \<or> \<not> np_nth has_defined_neibors e
                                        \<or> \<not> np_nth has_defined_neibors w)
                       marked_cols (zip (east_neibor nb) (west_neibor nb));
                   is_defined = map2 (\<lambda>d r. d \<and> r) is_defined (butlast has_defined_neibors)
               in Inr (has_defined_neibors, is_defined))"

subsection \<open>mesh_skeleton\<close>

fun cumsum_from :: "int \<Rightarrow> bool list \<Rightarrow> int list" where
  "cumsum_from acc [] = []"
| "cumsum_from acc (b # bs) = (acc + (if b then 1 else 0)) # cumsum_from (acc + (if b then 1 else 0)) bs"

definition reindex_of :: "bool list \<Rightarrow> int list" where
  "reindex_of is_defined =
     map2 (\<lambda>d c. if d then c - 1 else -1) is_defined (cumsum_from 0 is_defined)"

text \<open>
  Sequencing of calls that can raise or fail to return.
\<close>

definition and_then ::
  "(error + 'a) option \<Rightarrow> ('a \<Rightarrow> (error + 'b) option) \<Rightarrow> (error + 'b) option" where
  "and_then m f = (case m of None \<Rightarrow> None | Some (Inl e) \<Rightarrow> Some (Inl e) | Some (Inr x) \<Rightarrow> f x)"

text \<open>
  The references and weights of the restoration: the six walks, the three pairs of
  interpolation weights, and the two stacked arrays \<open>defining_indices\<close> and
  \<open>defining_weits\<close> with one row of four entries for each node.
\<close>

definition interpolation ::
  "neighbors \<Rightarrow> bool list \<Rightarrow> bool list \<Rightarrow> nat
     \<Rightarrow> (error + int list list \<times> real list list) option" where
  "interpolation nb has_defined_neibors is_defined n_full =
     and_then (follow_graph (north_neibor nb) (map int [0..<n_full]) has_defined_neibors)
       (\<lambda>(n_reference, n_distance).
     and_then (follow_graph (east_neibor nb) n_reference is_defined)
       (\<lambda>(ne_reference, ne_distance).
     and_then (follow_graph (west_neibor nb) n_reference is_defined)
       (\<lambda>(nw_reference, nw_distance).
     and_then (follow_graph (south_neibor nb) (map int [0..<n_full]) has_defined_neibors)
       (\<lambda>(s_reference, s_distance).
     and_then (follow_graph (east_neibor nb) s_reference is_defined)
       (\<lambda>(se_reference, se_distance).
     and_then (follow_graph (west_neibor nb) s_reference is_defined)
       (\<lambda>(sw_reference, sw_distance).
        let (n_weit, s_weit) = get_interpolation_weits n_distance s_distance;
            (ne_weit, nw_weit) = get_interpolation_weits ne_distance nw_distance;
            (se_weit, sw_weit) = get_interpolation_weits se_distance sw_distance;
            defining_indices =
              map (\<lambda>k. [ne_reference ! k, nw_reference ! k, se_reference ! k, sw_reference ! k])
                [0..<n_full];
            defining_weits =
              map (\<lambda>k. [n_weit ! k * ne_weit ! k, n_weit ! k * nw_weit ! k,
                         s_weit ! k * se_weit ! k, s_weit ! k * sw_weit ! k])
                [0..<n_full]
        in Some (Inr (defining_indices, defining_weits))))))))"

text \<open>
  \<open>mesh_skeleton\<close> itself.  \<open>np.max\<close> of an array without entries raises ValueError, as
  does \<open>np.full\<close> with a negative length.  The result is the pair (reduction,
  restoration).
\<close>

definition mesh_skeleton ::
  "lookup \<Rightarrow> int \<Rightarrow> int list \<Rightarrow> (error + operator \<times> operator) option" where
  "mesh_skeleton lookup_table factor east_west_factors =
     (case concat (concat lookup_table) of
        [] \<Rightarrow> Some (Inl ValueError)
      | x # xs \<Rightarrow>
          if fold max xs x + 1 < 0 then Some (Inl ValueError)
          else
            let n_full = nat (fold max xs x + 1) in
            case connection_graphs lookup_table n_full of
              Inl e \<Rightarrow> Some (Inl e)
            | Inr nb \<Rightarrow>
                (case choose_keys lookup_table factor east_west_factors n_full nb of
                   Inl e \<Rightarrow> Some (Inl e)
                 | Inr (has_defined_neibors, is_defined) \<Rightarrow>
                     (case reindex_of is_defined of
                        [] \<Rightarrow> Some (Inl ValueError)
                      | r # rs \<Rightarrow>
                          let reindex = r # rs;
                              n_partial = nat (fold max rs r + 1)
                          in and_then (interpolation nb has_defined_neibors is_defined n_full)
                               (\<lambda>(defining_indices, defining_weits).
                                  Some (Inr (Restriction is_defined,
                                             FromCoordinates n_partial
                                               (map (map (np_nth reindex)) defining_indices)
                                               defining_weits))))))"

section \<open>Node and cell enumerator\<close>

subsection \<open>enumerate_nodes\<close>

text \<open>
  The mesh is the array \<open>mesh[h, i, j, :]\<close> of positions, here a list of sections, each
  a list of rows of entries.  The mesh builder writes NaN into both coordinates of a node
  that does not exist, so an entry is either a position or \<open>None\<close>, the NaN row.
\<close>

type_synonym mesh = "point option list list list"

text \<open>
  \<open>np.unique(rows, axis=0)\<close>: the different rows in lexicographic order, the NaN rows
  after all others.  Whether NumPy merges equal NaN rows makes no difference to
  \<open>enumerate_nodes\<close>, which cuts the array at the first of them; the model keeps one.
  \<open>index_of\<close> is the inverse index that \<open>return_inverse=True\<close> asks for: the place of
  a row in the array of unique rows.
\<close>

definition sorted_positions :: "point option list \<Rightarrow> point list" where
  "sorted_positions rows = sort (remdups (List.map_filter (\<lambda>e. e) rows))"

definition unique_rows :: "point option list \<Rightarrow> point option list" where
  "unique_rows rows =
     map Some (sorted_positions rows) @ (if None \<in> set rows then [None] else [])"

fun index_of :: "'a list \<Rightarrow> 'a \<Rightarrow> nat" where
  "index_of [] y = 0"
| "index_of (x # xs) y = (if x = y then 0 else Suc (index_of xs y))"

text \<open>
  \<open>enumerate_nodes\<close>.  \<open>np.nonzero(np.isnan(node_positions[:, 0]))[0]\<close> is the array of the
  indices of the NaN rows, and taking its element 0 raises IndexError when there is none.
\<close>

definition enumerate_nodes :: "mesh \<Rightarrow> error + int list list list \<times> point option list" where
  "enumerate_nodes mesh =
     (let node_positions = unique_rows (concat (concat mesh));
          node_indices = map (map (map (\<lambda>e. int (index_of node_positions e)))) mesh
      in case filter (\<lambda>k. node_positions ! k = None) [0..<length node_positions] of
           [] \<Rightarrow> Inl IndexError
         | nan_index # _ \<Rightarrow>
             Inr (map (map (map (\<lambda>k. if k \<ge> int nan_index then -1 else k))) node_indices,
                  take nan_index node_positions))"

subsection \<open>enumerate_cells\<close>

text \<open>
  One row of the twelve-column array that \<open>enumerate_cells\<close> assembles: the five columns
  \<open>h, i, j, i + di, i + 1 - di\<close> that are cut off at the end, and the seven columns that
  remain as the cell definition.
\<close>

record candidate =
  cand_h :: int
  cand_i :: int
  cand_j :: int
  cand_node1_i :: int
  cand_node2_i :: int
  cand_cell :: cell

definition candidate_at :: "lookup \<Rightarrow> nat \<Rightarrow> nat \<Rightarrow> nat \<times> nat \<times> nat \<Rightarrow> candidate" where
  "candidate_at node_indices di dj = (\<lambda>(h, i, j).
     \<lparr>cand_h = int h, cand_i = int i, cand_j = int j,
      cand_node1_i = int (i + di), cand_node2_i = int (i + 1 - di),
      cand_cell =
        \<lparr>cell_h = int h, cell_i = int (i + di), cell_j = int (j + dj),
         west_node = entry node_indices h (i + di) j,
         east_node = entry node_indices h (i + di) (j + 1),
         south_node = entry node_indices h i (j + dj),
         north_node = entry node_indices h (i + 1) (j + dj)\<rparr>\<rparr>)"

text \<open>
  The list of all possible cells: for each of the four pairs \<open>(di, dj)\<close>, in the order of
  the two nested loops, one row for every \<open>(h, i, j)\<close> of the index grid.
\<close>

definition candidate_cells :: "lookup \<Rightarrow> candidate list" where
  "candidate_cells node_indices =
     concat (map (\<lambda>(di, dj).
         map (candidate_at node_indices di dj)
           (List.product [0..<n_sections node_indices]
              (List.product [0..<n_rows node_indices - 1] [0..<n_cols node_indices - 1])))
       [(0, 0), (0, 1), (1, 0), (1, 1)])"

definition corners :: "candidate \<Rightarrow> int \<times> int \<times> int \<times> int" where
  "corners c = (west_node (cand_cell c), east_node (cand_cell c),
                south_node (cand_cell c), north_node (cand_cell c))"

text \<open>
  \<open>np.unique(keys, axis=0, return_index=True)\<close> sorts the rows by their keys with a stable
  sort and takes the first row of every run of equal keys: the rows come out in the order
  of their keys, each key with its first occurrence.
\<close>

fun keep_first :: "('a \<Rightarrow> 'k) \<Rightarrow> 'a list \<Rightarrow> 'a list" where
  "keep_first key [] = []"
| "keep_first key [x] = [x]"
| "keep_first key (x # y # ys) =
     (if key x = key y then keep_first key (x # ys) else x # keep_first key (y # ys))"

definition unique_first :: "('a \<Rightarrow> 'k::linorder) \<Rightarrow> 'a list \<Rightarrow> 'a list" where
  "unique_first key rows = keep_first key (sort_key key rows)"

definition missing_node :: "candidate \<Rightarrow> bool" where
  "missing_node c = (west_node (cand_cell c) = -1 \<or> east_node (cand_cell c) = -1
                     \<or> south_node (cand_cell c) = -1 \<or> north_node (cand_cell c) = -1)"

definition degenerate :: "candidate \<Rightarrow> bool" where
  "degenerate c = (west_node (cand_cell c) = east_node (cand_cell c))"

text \<open>
  The cell definitions that \<open>enumerate_cells\<close> returns, its first result.  The weights and
  the scales, its second and third result, are computed afterwards from the rows that are
  left and from the rasters, and play no part here.
\<close>

definition enumerate_cells :: "lookup \<Rightarrow> cell list" where
  "enumerate_cells node_indices =
     map cand_cell
       (filter (\<lambda>c. \<not> (missing_node c \<or> degenerate c))
          (unique_first corners (candidate_cells node_indices)))"

text \<open>
  The four corner nodes of a cell definition, the key by which cells are told apart.
\<close>

definition four_corners :: "cell \<Rightarrow> int \<times> int \<times> int \<times> int" where
  "four_corners c = (west_node c, east_node c, south_node c, north_node c)"


section \<open>Notions used in the statements and proofs\<close>

text \<open>
  The number of \<open>True\<close> entries of a boolean array: the number of key nodes when the
  array is \<open>is_defined\<close>.
\<close>

definition count_true :: "bool list \<Rightarrow> nat" where
  "count_true bs = length (filter (\<lambda>b. b) bs)"

text \<open>
  The four connection graphs have one entry for each node.
\<close>

definition graphs_of_length :: "nat \<Rightarrow> neighbors \<Rightarrow> bool" where
  "graphs_of_length n nb \<longleftrightarrow>
     length (east_neibor nb) = n \<and> length (west_neibor nb) = n
     \<and> length (north_neibor nb) = n \<and> length (south_neibor nb) = n"


text \<open>
  A fully defined grid: a section of at least one row and one column, all rows of the same
  length, in which every entry is a node index and no two entries are the same node.  A
  fully defined lookup table consists of one such section.
\<close>

definition fully_defined_grid :: "int list list \<Rightarrow> bool" where
  "fully_defined_grid g \<longleftrightarrow>
     g \<noteq> [] \<and> hd g \<noteq> [] \<and> (\<forall>row \<in> set g. length row = length (hd g))
     \<and> distinct (concat g) \<and> (\<forall>v \<in> set (concat g). 0 \<le> v)"

definition fully_defined :: "lookup \<Rightarrow> bool" where
  "fully_defined t \<longleftrightarrow> length t = 1 \<and> fully_defined_grid (hd t)"

text \<open>
  What the first loop of \<open>mesh_skeleton\<close> maintains on a fully defined grid: an entry of
  a connection graph that is not \<open>-1\<close> links two adjacent positions of the grid.
\<close>

definition linked_grid :: "int list list \<Rightarrow> nat \<Rightarrow> neighbors \<Rightarrow> bool" where
  "linked_grid g n nb \<longleftrightarrow>
     graphs_of_length n nb
     \<and> (\<forall>s<n. north_neibor nb ! s \<noteq> -1 \<longrightarrow>
           (\<exists>i j. i + 1 < length g \<and> j < length (hd g) \<and> g ! i ! j = int s
                  \<and> north_neibor nb ! s = g ! (i + 1) ! j))
     \<and> (\<forall>s<n. south_neibor nb ! s \<noteq> -1 \<longrightarrow>
           (\<exists>i j. i + 1 < length g \<and> j < length (hd g) \<and> g ! (i + 1) ! j = int s
                  \<and> south_neibor nb ! s = g ! i ! j))
     \<and> (\<forall>s<n. east_neibor nb ! s \<noteq> -1 \<longrightarrow>
           (\<exists>i j. i < length g \<and> j + 1 < length (hd g) \<and> g ! i ! j = int s
                  \<and> east_neibor nb ! s = g ! i ! (j + 1)))
     \<and> (\<forall>s<n. west_neibor nb ! s \<noteq> -1 \<longrightarrow>
           (\<exists>i j. i < length g \<and> j + 1 < length (hd g) \<and> g ! i ! (j + 1) = int s
                  \<and> west_neibor nb ! s = g ! i ! j))"

text \<open>
  What the second loop maintains: the lengths of the two arrays, and the \<open>False\<close> at the
  end of \<open>has_defined_neibors\<close>.
\<close>

definition marks_ok :: "nat \<Rightarrow> bool list \<times> bool list \<Rightarrow> bool" where
  "marks_ok n marks \<longleftrightarrow>
     length (fst marks) = n + 1 \<and> length (snd marks) = n \<and> \<not> fst marks ! n"


section \<open>Example data\<close>

text \<open>
  A mesh of one cell with unit spacings, unit scale and unit weight, and three position
  vectors for it: the identity mapping, one with the east and west corners exchanged (a
  fold-over), and one with all nodes at the same point.
\<close>

definition unit_cell :: cell where
  "unit_cell = \<lparr>cell_h = 0, cell_i = 0, cell_j = 0,
                 west_node = 0, east_node = 1, south_node = 0, north_node = 2\<rparr>"

definition unit_env :: energy_env where
  "unit_env = \<lparr>restore = Scalar 1, cell_definitions = [unit_cell], cell_scales = [1],
                cell_weights = [1], dPhi = [1], dLam = [1]\<rparr>"

definition unit_positions :: "point list" where
  "unit_positions = [(0, 0), (1, 0), (0, 1)]"

definition folded_positions :: "point list" where
  "folded_positions = [(1, 0), (0, 0), (1, 1)]"

definition collapsed_positions :: "point list" where
  "collapsed_positions = [(0, 0), (0, 0), (0, 0)]"


text \<open>
  A single section of five rows and five columns with 25 different nodes, numbered row by
  row.
\<close>

definition grid5 :: lookup where
  "grid5 = [[[0, 1, 2, 3, 4], [5, 6, 7, 8, 9], [10, 11, 12, 13, 14],
             [15, 16, 17, 18, 19], [20, 21, 22, 23, 24]]]"

text \<open>
  A single column of five rows whose three middle rows hold the nodes 0, 1, 0: node 1 is
  the northern and the southern neighbour of node 0, and node 0 of node 1.
\<close>

definition loop_table :: lookup where
  "loop_table = [[[-1], [0], [1], [0], [-1]]]"

text \<open>
  A single column of four rows with node 0 in both middle rows: node 0 is its own northern
  and southern neighbour.
\<close>

definition self_loop_table :: lookup where
  "self_loop_table = [[[-1], [0], [0], [-1]]]"


text \<open>
  The key nodes, the reference indices into the reduced vector and the weights that
  \<open>mesh_skeleton\<close> computes for \<open>grid5\<close> with factor 2 and column stride 2.
\<close>

definition grid5_keys :: "bool list" where
  "grid5_keys = [True, False, True, False, True, False, False, False, False, False,
          True, False, True, False, True, False, False, False, False, False,
          True, False, True, False, True]"

definition grid5_refs :: "int list list" where
  "grid5_refs = [[0, 0, 0, 0], [1, 0, 1, 0], [1, 1, 1, 1], [2, 1, 2, 1],
          [2, 2, 2, 2], [3, 3, 0, 0], [4, 3, 1, 0], [4, 4, 1, 1],
          [5, 4, 2, 1], [5, 5, 2, 2], [3, 3, 3, 3], [4, 3, 4, 3],
          [4, 4, 4, 4], [5, 4, 5, 4], [5, 5, 5, 5], [6, 6, 3, 3],
          [7, 6, 4, 3], [7, 7, 4, 4], [8, 7, 5, 4], [8, 8, 5, 5],
          [6, 6, 6, 6], [7, 6, 7, 6], [7, 7, 7, 7], [8, 7, 8, 7],
          [8, 8, 8, 8]]"

definition grid5_weits :: "real list list" where
  "grid5_weits = [[1, 0, 0, 0], [1 / 2, 1 / 2, 0, 0], [1, 0, 0, 0],
          [1 / 2, 1 / 2, 0, 0], [1, 0, 0, 0], [1 / 2, 0, 1 / 2, 0],
          [1 / 4, 1 / 4, 1 / 4, 1 / 4], [1 / 2, 0, 1 / 2, 0],
          [1 / 4, 1 / 4, 1 / 4, 1 / 4], [1 / 2, 0, 1 / 2, 0], [1, 0, 0, 0],
          [1 / 2, 1 / 2, 0, 0], [1, 0, 0, 0], [1 / 2, 1 / 2, 0, 0],
          [1, 0, 0, 0], [1 / 2, 0, 1 / 2, 0], [1 / 4, 1 / 4, 1 / 4, 1 / 4],
          [1 / 2, 0, 1 / 2, 0], [1 / 4, 1 / 4, 1 / 4, 1 / 4],
          [1 / 2, 0, 1 / 2, 0], [1, 0, 0, 0], [1 / 2, 1 / 2, 0, 0],
          [1, 0, 0, 0], [1 / 2, 1 / 2, 0, 0], [1, 0, 0, 0]]"


text \<open>
  A section of three rows and two columns: the first row is a pole (both entries are the
  same node 3) and the last entry of the last row is missing.
\<close>

definition pole_table :: lookup where
  "pole_table = [[[3, 3], [0, 1], [2, -1]]]"

text \<open>
  Two meshes of one section with two rows and two columns.  In the first the position
  \<open>(1, 0)\<close> occurs twice and one node is absent; the second has no absent node.
\<close>

definition mesh_with_gap :: mesh where
  "mesh_with_gap = [[[Some (1, 0), Some (0, 0)], [None, Some (1, 0)]]]"

definition mesh_without_gap :: mesh where
  "mesh_without_gap = [[[Some (1, 0), Some (0, 0)], [Some (0, 1), Some (1, 1)]]]"

section \<open>Properties of the strain evaluator and the energy functions\<close>

subsection \<open>The example mesh\<close>

lemma strains_unit: "strains_of unit_env unit_positions = Inr ([1], [1])"
  by (simp add: strains_of_def unit_env_def unit_positions_def unit_cell_def
      compute_principal_strains_def np_ok_def np_nth_def np_pos_def cell_strain_def
      strain_pair_def scale_point_def)

lemma strains_folded: "strains_of unit_env folded_positions = Inr ([1], [-1])"
  by (simp add: strains_of_def unit_env_def folded_positions_def unit_cell_def
      compute_principal_strains_def np_ok_def np_nth_def np_pos_def cell_strain_def
      strain_pair_def scale_point_def)

lemma strains_collapsed: "strains_of unit_env collapsed_positions = Inr ([0], [0])"
  by (simp add: strains_of_def unit_env_def collapsed_positions_def unit_cell_def
      compute_principal_strains_def np_ok_def np_nth_def np_pos_def cell_strain_def
      strain_pair_def scale_point_def)

subsection \<open>Auxiliary facts\<close>

lemma strains_lengths:
  assumes "compute_principal_strains positions cells scales dP dL = Inr (a, b)"
  shows "length a = length cells \<and> length b = length cells"
  using assms by (auto simp: compute_principal_strains_def Let_def split: if_splits)

lemma sum_list_map2_nth:
  assumes "length xs = length ys"
  shows "sum_list (map2 f xs ys) = (\<Sum>k<length xs. f (xs ! k) (ys ! k))"
proof -
  have "sum_list (map2 f xs ys) = (\<Sum>k = 0..<length (map2 f xs ys). map2 f xs ys ! k)"
    by (rule sum_list_sum_nth)
  also have "\<dots> = (\<Sum>k = 0..<length xs. f (xs ! k) (ys ! k))"
    using assms by (intro sum.cong) auto
  finally show ?thesis by (simp add: lessThan_atLeast0)
qed

lemma strain_pair_order:
  "fst (strain_pair w e s n dl dp sc) \<ge> snd (strain_pair w e s n dl dp sc)
   \<and> fst (strain_pair w e s n dl dp sc) \<ge> 0"
  by (simp add: strain_pair_def Let_def)

lemma strains_of_lengths:
  assumes "strains_of env positions = Inr (a, b)"
  shows "length a = length (cell_definitions env)" and "length b = length a"
  using assms strains_lengths unfolding strains_of_def by fastforce+

lemma some_cell_iff:
  assumes "length b = length a"
  shows "((\<exists>x \<in> set a. P x) \<or> (\<exists>x \<in> set b. P x)) \<longleftrightarrow> (\<exists>k<length a. P (a ! k) \<or> P (b ! k))"
proof -
  have "(\<exists>x \<in> set a. P x) \<longleftrightarrow> (\<exists>k<length a. P (a ! k))"
    by (metis in_set_conv_nth)
  moreover have "(\<exists>x \<in> set b. P x) \<longleftrightarrow> (\<exists>k<length a. P (b ! k))"
    using assms by (metis in_set_conv_nth)
  ultimately show ?thesis by blast
qed

lemma every_cell_iff:
  assumes "length b = length a"
  shows "((\<forall>x \<in> set a. P x) \<and> (\<forall>x \<in> set b. P x)) \<longleftrightarrow> (\<forall>k<length a. P (a ! k) \<and> P (b ! k))"
proof -
  have "(\<forall>x \<in> set a. P x) \<longleftrightarrow> (\<forall>k<length a. P (a ! k))"
    by (metis in_set_conv_nth)
  moreover have "(\<forall>x \<in> set b. P x) \<longleftrightarrow> (\<forall>k<length a. P (b ! k))"
    using assms by (metis in_set_conv_nth)
  ultimately show ?thesis by blast
qed

lemma weighted_total_sum:
  assumes "length a = length b" and "length w = length a"
  shows "weighted_total (map2 f a b) w = Inr (Fin (\<Sum>k<length a. w ! k * f (a ! k) (b ! k)))"
proof -
  have "sum_list (map2 (\<lambda>t w. t * w) (map2 f a b) w)
        = (\<Sum>k<length (map2 f a b). (map2 f a b) ! k * w ! k)"
    using assms by (intro sum_list_map2_nth) simp
  also have "\<dots> = (\<Sum>k<length a. w ! k * f (a ! k) (b ! k))"
    using assms by (intro sum.cong) (auto simp: mult.commute)
  finally show ?thesis using assms by (simp add: weighted_total_def)
qed

subsection \<open>The strict energy\<close>

text \<open>
  Claim C4.  Whenever the strains of the cells can be computed, \<open>compute_energy_strict\<close>
  returns plus infinity if and only if some cell has major strain \<open>a \<le> 0\<close> or minor
  strain \<open>b \<le> 0\<close>; otherwise (with one weight per cell) it returns the finite value
  \<open>\<Sum> w\<cdot>[((ab)\<^sup>2 - 1)/2 - ln(ab) + 2(a - b)\<^sup>2]\<close> over the cells.
\<close>

theorem compute_energy_strict_infinite_iff:
  assumes "strains_of env positions = Inr (a, b)"
  shows "(compute_energy_strict env positions = Inr PosInf
            \<longleftrightarrow> (\<exists>k<length a. a ! k \<le> 0 \<or> b ! k \<le> 0))
       \<and> (\<not> (\<exists>k<length a. a ! k \<le> 0 \<or> b ! k \<le> 0)
            \<and> length (cell_weights env) = length a \<longrightarrow>
          compute_energy_strict env positions =
            Inr (Fin (\<Sum>k<length a. cell_weights env ! k *
                   (((a ! k * b ! k)\<^sup>2 - 1) / 2 - ln (a ! k * b ! k) + 2 * (a ! k - b ! k)\<^sup>2))))"
proof -
  have len: "length b = length a" using assms by (rule strains_of_lengths)
  have cond: "((\<exists>x \<in> set a. x \<le> 0) \<or> (\<exists>x \<in> set b. x \<le> 0))
                \<longleftrightarrow> (\<exists>k<length a. a ! k \<le> 0 \<or> b ! k \<le> 0)"
    using len by (rule some_cell_iff)
  show ?thesis
  proof (cases "\<exists>k<length a. a ! k \<le> 0 \<or> b ! k \<le> 0")
    case True
    with cond assms show ?thesis by (simp add: compute_energy_strict_def)
  next
    case False
    with cond assms have eq: "compute_energy_strict env positions =
        weighted_total (map2 (\<lambda>x y. ((x * y)\<^sup>2 - 1) / 2 - ln (x * y) + 2 * (x - y)\<^sup>2) a b)
          (cell_weights env)"
      by (simp add: compute_energy_strict_def)
    have "compute_energy_strict env positions \<noteq> Inr PosInf"
      unfolding eq by (simp add: weighted_total_def)
    moreover have "length (cell_weights env) = length a \<Longrightarrow> compute_energy_strict env positions =
            Inr (Fin (\<Sum>k<length a. cell_weights env ! k *
                   (((a ! k * b ! k)\<^sup>2 - 1) / 2 - ln (a ! k * b ! k) + 2 * (a ! k - b ! k)\<^sup>2)))"
      unfolding eq using len by (intro weighted_total_sum) simp_all
    ultimately show ?thesis using False by blast
  qed
qed

theorem compute_energy_strict_infinite_iff_witness:
  "strains_of unit_env unit_positions = Inr ([1], [1])
   \<and> compute_energy_strict unit_env unit_positions = Inr (Fin 0)
   \<and> strains_of unit_env folded_positions = Inr ([1], [-1])
   \<and> compute_energy_strict unit_env folded_positions = Inr PosInf"
  using compute_energy_strict_infinite_iff [OF strains_unit]
        compute_energy_strict_infinite_iff [OF strains_folded]
        strains_unit strains_folded
  by (simp add: unit_env_def)

subsection \<open>The lenient energy\<close>

text \<open>
  On the identity mapping of the example mesh the only cell has strains \<open>(1, 1)\<close>, both
  finite and positive, and \<open>compute_energy_lenient\<close> returns minus infinity, not the
  finite sum: the function starts with the same test for an all-valid mesh as
  \<open>compute_energy_aggressive\<close>.
\<close>

theorem compute_energy_lenient_positive_counterexample:
  "strains_of unit_env unit_positions = Inr ([1], [1])
   \<and> compute_energy_lenient unit_env unit_positions = Inr NegInf"
  using strains_unit by (simp add: compute_energy_lenient_def)

text \<open>
  Claim C1, amended.  Whenever the strains of the cells can be computed (with one weight
  per cell), \<open>compute_energy_lenient\<close> returns minus infinity if every cell has both
  strains positive, and otherwise, that is as soon as one strain of one cell is not
  positive, the finite value \<open>\<Sum> w\<cdot>[(a + b - 2)\<^sup>2 + 2(a - b)\<^sup>2]\<close> over the cells.
\<close>

theorem compute_energy_lenient_cases:
  assumes "strains_of env positions = Inr (a, b)"
    and "length (cell_weights env) = length a"
  shows "compute_energy_lenient env positions =
          (if \<forall>k<length a. a ! k > 0 \<and> b ! k > 0 then Inr NegInf
           else Inr (Fin (\<Sum>k<length a. cell_weights env ! k *
                   ((a ! k + b ! k - 2)\<^sup>2 + 2 * (a ! k - b ! k)\<^sup>2))))"
proof -
  have len: "length b = length a" using assms(1) by (rule strains_of_lengths)
  have cond: "((\<forall>x \<in> set a. x > 0) \<and> (\<forall>x \<in> set b. x > 0))
                \<longleftrightarrow> (\<forall>k<length a. a ! k > 0 \<and> b ! k > 0)"
    using len by (rule every_cell_iff)
  show ?thesis
  proof (cases "\<forall>k<length a. a ! k > 0 \<and> b ! k > 0")
    case True
    with cond assms(1) show ?thesis by (simp add: compute_energy_lenient_def)
  next
    case False
    with cond have ncond: "\<not> ((\<forall>x \<in> set a. x > 0) \<and> (\<forall>x \<in> set b. x > 0))"
      by blast
    have "compute_energy_lenient env positions =
        weighted_total (map2 (\<lambda>x y. (x + y - 2)\<^sup>2 + 2 * (x - y)\<^sup>2) a b) (cell_weights env)"
      by (simp only: compute_energy_lenient_def assms(1) sum.case prod.case ncond if_False)
    also have "\<dots> = Inr (Fin (\<Sum>k<length a. cell_weights env ! k *
                   ((a ! k + b ! k - 2)\<^sup>2 + 2 * (a ! k - b ! k)\<^sup>2)))"
      using len assms(2) by (intro weighted_total_sum) simp_all
    finally show ?thesis using False by simp
  qed
qed

theorem compute_energy_lenient_cases_witness:
  "strains_of unit_env folded_positions = Inr ([1], [-1])
   \<and> length (cell_weights unit_env) = length [1::real]
   \<and> compute_energy_lenient unit_env folded_positions = Inr (Fin 12)"
proof -
  have len: "length (cell_weights unit_env) = length [1::real]" by (simp add: unit_env_def)
  show ?thesis
    using compute_energy_lenient_cases [OF strains_folded len] strains_folded len
    by (simp add: unit_env_def)
qed

subsection \<open>The aggressive energy\<close>

text \<open>
  Claim C7.  Whenever the strains of the cells can be computed,
  \<open>compute_energy_aggressive\<close> returns minus infinity if every cell has both strains
  positive; otherwise plus infinity if some strain is below \<open>-100\<close>; and otherwise the
  sum of \<open>exp(-6a) + exp(-6b)\<close> over the cells.
\<close>

theorem compute_energy_aggressive_cases:
  assumes "strains_of env positions = Inr (a, b)"
  shows "compute_energy_aggressive env positions =
          (if \<forall>k<length a. a ! k > 0 \<and> b ! k > 0 then Inr NegInf
           else if \<exists>k<length a. a ! k < -100 \<or> b ! k < -100 then Inr PosInf
           else Inr (Fin (\<Sum>k<length a. exp (-6 * a ! k) + exp (-6 * b ! k))))"
proof -
  have len: "length b = length a" using assms(1) by (rule strains_of_lengths)
  have c1: "((\<forall>x \<in> set a. x > 0) \<and> (\<forall>x \<in> set b. x > 0))
                \<longleftrightarrow> (\<forall>k<length a. a ! k > 0 \<and> b ! k > 0)"
    using len by (rule every_cell_iff)
  have c2: "((\<exists>x \<in> set a. x < -100) \<or> (\<exists>x \<in> set b. x < -100))
                \<longleftrightarrow> (\<exists>k<length a. a ! k < -100 \<or> b ! k < -100)"
    using len by (rule some_cell_iff)
  have s: "sum_list (map2 (\<lambda>x y. exp (-6 * x) + exp (-6 * y)) a b)
           = (\<Sum>k<length a. exp (-6 * a ! k) + exp (-6 * b ! k))"
    using len by (intro sum_list_map2_nth) simp
  show ?thesis
    using assms(1) by (simp only: compute_energy_aggressive_def c1 c2 s sum.case prod.case)
qed

theorem compute_energy_aggressive_cases_witness:
  "strains_of unit_env folded_positions = Inr ([1], [-1])
   \<and> compute_energy_aggressive unit_env folded_positions = Inr (Fin (exp (-6) + exp 6))
   \<and> strains_of unit_env unit_positions = Inr ([1], [1])
   \<and> compute_energy_aggressive unit_env unit_positions = Inr NegInf"
  using compute_energy_aggressive_cases [OF strains_folded]
        compute_energy_aggressive_cases [OF strains_unit] strains_folded strains_unit
  by simp

subsection \<open>Principal strains\<close>

lemma strains_nth:
  assumes "compute_principal_strains positions cells scales dP dL = Inr (a, b)"
    and "k < length cells"
  shows "(a ! k, b ! k) = cell_strain positions dP dL (cells ! k) (scales ! k)"
  using assms by (auto simp: compute_principal_strains_def Let_def split: if_splits)

lemma half_sqrt_zero:
  assumes "sqrt x / 2 + sqrt y / 2 = 0" and "x \<ge> 0" and "y \<ge> 0"
  shows "sqrt x / 2 - sqrt y / 2 = 0"
proof -
  have "sqrt x / 2 \<ge> 0" and "sqrt y / 2 \<ge> 0" using assms(2,3) by simp_all
  with assms(1) have "sqrt x / 2 = 0 \<and> sqrt y / 2 = 0"
    by (simp only: add_nonneg_eq_0_iff)
  then show ?thesis by simp
qed

lemma strain_pair_zero:
  assumes "fst (strain_pair w e s n dl dp sc) = 0"
  shows "snd (strain_pair w e s n dl dp sc) = 0"
  using assms unfolding strain_pair_def Let_def fst_conv snd_conv
  by (rule half_sqrt_zero) simp_all

text \<open>
  When all nodes of the example cell lie at the same point both finite differences vanish,
  and the major strain is zero: the major strain can be non-positive, too.
\<close>

theorem collapsed_cell_counterexample:
  "compute_principal_strains collapsed_positions [unit_cell] [1] [1] [1] = Inr ([0], [0])"
  by (simp add: collapsed_positions_def unit_cell_def
      compute_principal_strains_def np_ok_def np_nth_def np_pos_def cell_strain_def
      strain_pair_def)

text \<open>
  Claim C10, amended.  For every positions vector and cell list on which
  \<open>compute_principal_strains\<close> returns, each (major, minor) pair satisfies
  \<open>major \<ge> minor\<close> and \<open>major \<ge> 0\<close>, since trace and antitrace are non-negative
  square roots; the major strain is never negative, and where it is zero the minor strain
  is zero as well, so that only the minor strain can be negative.
\<close>

theorem compute_principal_strains_ordered:
  assumes "compute_principal_strains positions cells scales dP dL = Inr (a, b)"
  shows "length a = length cells \<and> length b = length cells
       \<and> (\<forall>k<length cells. a ! k \<ge> b ! k \<and> a ! k \<ge> 0 \<and> (a ! k = 0 \<longrightarrow> b ! k = 0))"
proof -
  have "a ! k \<ge> b ! k \<and> a ! k \<ge> 0 \<and> (a ! k = 0 \<longrightarrow> b ! k = 0)" if "k < length cells" for k
  proof -
    have eq: "(a ! k, b ! k) = cell_strain positions dP dL (cells ! k) (scales ! k)"
      using assms that by (rule strains_nth)
    then have a: "a ! k = fst (cell_strain positions dP dL (cells ! k) (scales ! k))"
      and b: "b ! k = snd (cell_strain positions dP dL (cells ! k) (scales ! k))"
      by (metis fst_conv, metis snd_conv)
    show ?thesis unfolding a b cell_strain_def
      using strain_pair_order strain_pair_zero by blast
  qed
  with strains_lengths [OF assms] show ?thesis by blast
qed

theorem compute_principal_strains_ordered_witness:
  "compute_principal_strains folded_positions [unit_cell] [1] [1] [1] = Inr ([1], [-1])
   \<and> [-1] ! 0 \<le> [1::real] ! 0 \<and> (0::real) \<le> [1] ! 0"
proof -
  have h: "compute_principal_strains folded_positions [unit_cell] [1] [1] [1] = Inr ([1], [-1])"
    by (simp add: folded_positions_def unit_cell_def
      compute_principal_strains_def np_ok_def np_nth_def np_pos_def cell_strain_def
      strain_pair_def)
  show ?thesis using compute_principal_strains_ordered [OF h] h by simp
qed

text \<open>
  Claim C6.  For an identity planar mapping in matching units: in every cell the east
  corner lies \<open>d\<Lambda>[i]\<close> to the right of the west corner, the north corner \<open>d\<Phi>[i]\<close>
  above the south corner, the spacings are not zero and the cell scale is 1.  Then
  \<open>compute_principal_strains\<close> returns major strain 1 and minor strain 1 for every cell
  (major = trace + antitrace and minor = trace - antitrace, as \<open>strain_pair\<close> computes
  them).
\<close>

theorem identity_mapping_unit_strains:
  assumes "compute_principal_strains positions cells scales dP dL = Inr (a, b)"
    and "\<forall>k<length cells.
           scales ! k = 1
         \<and> np_nth dL (cell_i (cells ! k)) \<noteq> 0 \<and> np_nth dP (cell_i (cells ! k)) \<noteq> 0
         \<and> np_nth positions (east_node (cells ! k)) =
             add_point (np_nth positions (west_node (cells ! k)))
                       (np_nth dL (cell_i (cells ! k)), 0)
         \<and> np_nth positions (north_node (cells ! k)) =
             add_point (np_nth positions (south_node (cells ! k)))
                       (0, np_nth dP (cell_i (cells ! k)))"
  shows "length a = length cells \<and> length b = length cells
       \<and> (\<forall>k<length cells. a ! k = 1 \<and> b ! k = 1)"
proof -
  have "a ! k = 1 \<and> b ! k = 1" if k: "k < length cells" for k
  proof -
    have eq: "(a ! k, b ! k) = cell_strain positions dP dL (cells ! k) (scales ! k)"
      using assms(1) k by (rule strains_nth)
    from assms(2) k have h: "scales ! k = 1"
      "np_nth dL (cell_i (cells ! k)) \<noteq> 0" "np_nth dP (cell_i (cells ! k)) \<noteq> 0"
      "np_nth positions (east_node (cells ! k)) =
             add_point (np_nth positions (west_node (cells ! k)))
                       (np_nth dL (cell_i (cells ! k)), 0)"
      "np_nth positions (north_node (cells ! k)) =
             add_point (np_nth positions (south_node (cells ! k)))
                       (0, np_nth dP (cell_i (cells ! k)))"
      by blast+
    have "cell_strain positions dP dL (cells ! k) (scales ! k) = (1, 1)"
      using h(2,3) by (simp add: cell_strain_def h(1,4,5) strain_pair_def add_point_def)
    with eq show ?thesis by simp
  qed
  with strains_lengths [OF assms(1)] show ?thesis by blast
qed

theorem identity_mapping_unit_strains_witness:
  "compute_principal_strains unit_positions [unit_cell] [1] [1] [1] = Inr ([1], [1])
   \<and> length [1::real] = length [unit_cell] \<and> [1::real] ! 0 = 1"
proof -
  have h: "compute_principal_strains unit_positions [unit_cell] [1] [1] [1] = Inr ([1], [1])"
    by (simp add: unit_positions_def unit_cell_def
      compute_principal_strains_def np_ok_def np_nth_def np_pos_def cell_strain_def
      strain_pair_def)
  have i: "\<forall>k<length [unit_cell].
           [1::real] ! k = 1
         \<and> np_nth [1::real] (cell_i ([unit_cell] ! k)) \<noteq> 0 \<and> np_nth [1::real] (cell_i ([unit_cell] ! k)) \<noteq> 0
         \<and> np_nth unit_positions (east_node ([unit_cell] ! k)) =
             add_point (np_nth unit_positions (west_node ([unit_cell] ! k)))
                       (np_nth [1::real] (cell_i ([unit_cell] ! k)), 0)
         \<and> np_nth unit_positions (north_node ([unit_cell] ! k)) =
             add_point (np_nth unit_positions (south_node ([unit_cell] ! k)))
                       (0, np_nth [1::real] (cell_i ([unit_cell] ! k)))"
    by (simp add: unit_positions_def unit_cell_def np_nth_def np_pos_def add_point_def)
  show ?thesis using identity_mapping_unit_strains [OF h i] h by simp
qed
section \<open>Properties of the skeleton builder\<close>

subsection \<open>A loop of two nodes\<close>

lemma loop_graphs:
  "connection_graphs loop_table 2 =
     Inr \<lparr>east_neibor = [-1, -1], west_neibor = [-1, -1],
          north_neibor = [1, 0], south_neibor = [1, 0]\<rparr>"
  by code_simp

lemma loop_keys:
  "choose_keys loop_table 3 [3, 3, 3, 3, 3] 2
     \<lparr>east_neibor = [-1, -1], west_neibor = [-1, -1],
      north_neibor = [1, 0], south_neibor = [1, 0]\<rparr>
   = Inr ([False, False, False], [False, False])"
  by code_simp

lemma two_cycle_never_returns:
  assumes "state = [0, 1] \<or> state = [1, 0]"
  shows "follow_graph_loop [1, 0] [False, False, False] state distance_traveld = None"
proof (rule ccontr)
  assume "follow_graph_loop [1, 0] [False, False, False] state distance_traveld \<noteq> None"
  then obtain r where ret:
    "follow_graph_loop [1, 0] [False, False, False] state distance_traveld = Some r"
    by blast
  have "\<not> (progression = [1, 0] \<and> until = [False, False, False]
            \<and> (st = [0, 1] \<or> st = [1, 0]))"
    if "follow_graph_loop progression until st d = Some res" for progression until st d res
  proof (rule follow_graph_loop.raw_induct
      [where P = "\<lambda>progression until st d res.
         \<not> (progression = [1, 0] \<and> until = [False, False, False]
            \<and> (st = [0, 1] \<or> st = [1, 0]))", OF _ that])
    fix f progression until st d res
    assume IH: "\<And>progression until st d res. f progression until st d = Some res \<Longrightarrow>
        \<not> (progression = [1, 0] \<and> until = [False, False, False]
            \<and> (st = [0, 1] \<or> st = [1, 0]))"
      and eq: "(if \<not> (\<forall>s \<in> set st. np_ok until s) then Some (Inl IndexError)
      else if \<forall>s \<in> set st. np_nth until s then Some (Inr (st, d))
      else if \<not> (\<forall>s \<in> set st. np_ok progression s) then Some (Inl IndexError)
      else if \<exists>s \<in> set st. \<not> np_nth until s \<and> np_nth progression s = s
      then Some (Inl ValueError)
      else f progression until
             (map (\<lambda>s. if np_nth until s then s else np_nth progression s) st)
             (map2 (\<lambda>s d. if np_nth until s then d else d + 1) st d)) = Some res"
    show "\<not> (progression = [1, 0] \<and> until = [False, False, False]
            \<and> (st = [0, 1] \<or> st = [1, 0]))"
    proof
      assume c: "progression = [1, 0] \<and> until = [False, False, False]
            \<and> (st = [0, 1] \<or> st = [1, 0])"
      then have "f progression until
             (map (\<lambda>s. if np_nth until s then s else np_nth progression s) st)
             (map2 (\<lambda>s d. if np_nth until s then d else d + 1) st d) = Some res"
        using eq by (auto simp: np_ok_def np_nth_def np_pos_def)
      from IH [OF this] c show False
        by (auto simp: np_nth_def np_pos_def)
    qed
  qed
  from this [OF ret] assms show False by simp
qed

text \<open>
  Claim C2.  \<open>loop_table\<close> has five rows, so that with factor 3 only the rows 0 and 4 are
  row anchors; its nodes 0 and 1 lie in the rows between and are each other's northern
  and southern neighbours: an isolated 2-node loop with no reachable row anchor.  The
  claim is that \<open>mesh_skeleton\<close> raises on such a table.  It does not: the first walk of
  \<open>follow_graph\<close> alternates between the two nodes for ever, since the test before
  \<open>raise ValueError\<close> compares a node with its own successor only, and
  \<open>mesh_skeleton\<close> never returns.
\<close>

theorem mesh_skeleton_two_node_loop:
  "mesh_skeleton loop_table 3 [3, 3, 3, 3, 3] = None"
proof -
  have cc: "concat (concat loop_table) = [-1, 0, 1, 0, -1]"
    by (simp add: loop_table_def)
  have walk: "follow_graph [1, 0] (map int [0..<2]) [False, False, False] = None"
    unfolding follow_graph_def by (rule two_cycle_never_returns) (simp add: upt_conv_Cons)
  have "interpolation \<lparr>east_neibor = [-1, -1], west_neibor = [-1, -1],
          north_neibor = [1, 0], south_neibor = [1, 0]\<rparr>
          [False, False, False] [False, False] 2 = None"
    unfolding interpolation_def by (simp add: walk and_then_def)
  then show ?thesis
    unfolding mesh_skeleton_def cc
    by (simp add: loop_graphs loop_keys reindex_of_def and_then_def)
qed

text \<open>
  A loop of one node is what the test in \<open>follow_graph\<close> recognises: there
  \<open>mesh_skeleton\<close> raises.
\<close>

lemma mesh_skeleton_one_node_loop:
  "mesh_skeleton self_loop_table 3 [3, 3, 3, 3] = Some (Inl ValueError)"
  by code_simp

subsection \<open>The grid of five rows and five columns\<close>

lemma grid5_result:
  "mesh_skeleton grid5 2 [2, 2, 2, 2, 2] =
     Some (Inr (Restriction grid5_keys, FromCoordinates 9 grid5_refs grid5_weits))"
  by code_simp

lemma grid5_key_positions:
  "map (\<lambda>i. map (\<lambda>j. np_nth grid5_keys (entry grid5 0 i j)) [0..<5]) [0..<5] =
   map (\<lambda>i. map (\<lambda>j. i \<in> {0, 2, 4} \<and> j \<in> {0, 2, 4}) [0..<5]) [0..<5]"
  by code_simp

lemma grid5_key_count: "length (filter (\<lambda>d. d) grid5_keys) = 9"
  by code_simp

lemma grid5_all_ones:
  "matmul (FromCoordinates 9 grid5_refs grid5_weits) (replicate 9 (1, 1)) = replicate 25 (1, 1)"
  by code_simp

text \<open>
  Claim C5.  On the fully defined single-section grid of five rows and five columns with
  25 different nodes, \<open>mesh_skeleton\<close> with factor 2 (and column stride
  \<open>round(2/cos \<phi>) = 2\<close> in every row, that is, latitudes within 36 degrees of the equator)
  marks exactly 9 key nodes, those at the rows 0, 2, 4 and the columns 0, 2, 4; and the
  restoration operator applied to the all-ones vector of 9 points gives the all-ones
  vector of 25 points.
\<close>

theorem grid5_skeleton:
  "mesh_skeleton grid5 2 [2, 2, 2, 2, 2] =
     Some (Inr (Restriction grid5_keys, FromCoordinates 9 grid5_refs grid5_weits))
   \<and> map (\<lambda>i. map (\<lambda>j. np_nth grid5_keys (entry grid5 0 i j)) [0..<5]) [0..<5] =
     map (\<lambda>i. map (\<lambda>j. i \<in> {0, 2, 4} \<and> j \<in> {0, 2, 4}) [0..<5]) [0..<5]
   \<and> length (filter (\<lambda>d. d) grid5_keys) = 9
   \<and> matmul (FromCoordinates 9 grid5_refs grid5_weits) (replicate 9 (1, 1))
       = replicate 25 (1, 1)"
  using grid5_result grid5_key_positions grid5_key_count grid5_all_ones by blast


subsection \<open>What follow_graph returns\<close>

lemma np_nth_nat: "np_nth xs (int k) = xs ! k"
  by (simp add: np_nth_def np_pos_def)

lemma np_ok_pos: "np_ok xs i \<Longrightarrow> np_pos xs i < length xs"
  by (auto simp: np_ok_def np_pos_def)

lemma follow_graph_loop_result:
  assumes ret: "follow_graph_loop progression until state dst = Some (Inr (state', dst'))"
    and len: "length dst = length state"
    and nonneg: "\<forall>x \<in> set dst. 0 \<le> x"
  shows "length state' = length state \<and> length dst' = length state
       \<and> (\<forall>s \<in> set state'. np_ok until s \<and> np_nth until s)
       \<and> (\<forall>x \<in> set dst'. 0 \<le> x)
       \<and> (\<forall>k<length state. np_nth until (state ! k) \<longrightarrow>
             state' ! k = state ! k \<and> dst' ! k = dst ! k)"
proof -
  let ?Q = "\<lambda>until (state :: int list) (dst :: real list) state' dst'.
       length state' = length state \<and> length dst' = length state
       \<and> (\<forall>s \<in> set state'. np_ok until s \<and> np_nth until s)
       \<and> (\<forall>x \<in> set dst'. 0 \<le> x)
       \<and> (\<forall>k<length state. np_nth until (state ! k) \<longrightarrow>
             state' ! k = state ! k \<and> dst' ! k = dst ! k)"
  let ?P = "\<lambda>(progression :: int list) until state dst (res :: error + int list \<times> real list).
       \<forall>state' dst'. res = Inr (state', dst') \<longrightarrow> length dst = length state \<longrightarrow>
         (\<forall>x \<in> set dst. 0 \<le> x) \<longrightarrow> ?Q until state dst state' dst'"
  have "?P progression until state dst (Inr (state', dst'))"
  proof (rule follow_graph_loop.raw_induct [where P = ?P, OF _ ret])
    fix f progression until state dst res
    assume IH: "\<And>progression until state dst res.
        f progression until state dst = Some res \<Longrightarrow> ?P progression until state dst res"
      and eq: "(if \<not> (\<forall>s \<in> set state. np_ok until s) then Some (Inl IndexError)
      else if \<forall>s \<in> set state. np_nth until s then Some (Inr (state, dst))
      else if \<not> (\<forall>s \<in> set state. np_ok progression s) then Some (Inl IndexError)
      else if \<exists>s \<in> set state. \<not> np_nth until s \<and> np_nth progression s = s
      then Some (Inl ValueError)
      else f progression until
             (map (\<lambda>s. if np_nth until s then s else np_nth progression s) state)
             (map2 (\<lambda>s d. if np_nth until s then d else d + 1) state dst)) = Some res"
    show "?P progression until state dst res"
    proof (intro allI impI)
      fix state' dst'
      assume res: "res = Inr (state', dst')"
        and len: "length dst = length state"
        and nonneg: "\<forall>x \<in> set dst. 0 \<le> x"
      let ?st = "map (\<lambda>s. if np_nth until s then s else np_nth progression s) state"
      let ?d = "map2 (\<lambda>s d. if np_nth until s then d else d + 1) state dst"
      from eq res have ok: "\<forall>s \<in> set state. np_ok until s"
        by (auto split: if_splits)
      show "?Q until state dst state' dst'"
      proof (cases "\<forall>s \<in> set state. np_nth until s")
        case True
        with eq ok res have "state' = state" "dst' = dst" by simp_all
        with True ok len nonneg show ?thesis by simp
      next
        case False
        with eq ok res have rec: "f progression until ?st ?d = Some res"
          by (auto split: if_splits)
        have len2: "length ?d = length ?st" using len by simp
        have nonneg2: "\<forall>x \<in> set ?d. 0 \<le> x"
        proof
          fix x assume "x \<in> set ?d"
          then obtain s d where "d \<in> set dst" and "x = (if np_nth until s then d else d + 1)"
            by (auto dest: set_zip_rightD)
          with nonneg show "0 \<le> x" by auto
        qed
        from IH [OF rec] res len2 nonneg2 have Q: "?Q until ?st ?d state' dst'" by blast
        have frozen: "state' ! k = state ! k \<and> dst' ! k = dst ! k"
          if k: "k < length state" and a: "np_nth until (state ! k)" for k
        proof -
          from k a have s: "?st ! k = state ! k" by simp
          from k a len have d: "?d ! k = dst ! k" by simp
          from Q k have "np_nth until (?st ! k) \<longrightarrow> state' ! k = ?st ! k \<and> dst' ! k = ?d ! k"
            by simp
          with s d a show ?thesis by simp
        qed
        from Q frozen show ?thesis by simp
      qed
    qed
  qed
  with len nonneg show ?thesis by blast
qed

lemma follow_graph_result:
  assumes "follow_graph progression frum until = Some (Inr (state', dst'))"
  shows "length state' = length frum \<and> length dst' = length frum
       \<and> (\<forall>s \<in> set state'. np_ok until s \<and> np_nth until s)
       \<and> (\<forall>x \<in> set dst'. 0 \<le> x)
       \<and> (\<forall>k<length frum. np_nth until (frum ! k) \<longrightarrow> state' ! k = frum ! k \<and> dst' ! k = 0)"
proof -
  have "length (replicate (length frum) (0::real)) = length frum" by simp
  moreover have "\<forall>x \<in> set (replicate (length frum) (0::real)). 0 \<le> x" by simp
  ultimately have "length state' = length frum \<and> length dst' = length frum
       \<and> (\<forall>s \<in> set state'. np_ok until s \<and> np_nth until s)
       \<and> (\<forall>x \<in> set dst'. 0 \<le> x)
       \<and> (\<forall>k<length frum. np_nth until (frum ! k) \<longrightarrow>
             state' ! k = frum ! k \<and> dst' ! k = replicate (length frum) (0::real) ! k)"
    using assms unfolding follow_graph_def by (rule follow_graph_loop_result [rotated 1])
  then show ?thesis by simp
qed

lemma interpolation_weits:
  assumes "get_interpolation_weits distance_a distance_b = (weits_a, weits_b)"
    and "length distance_a = n" and "length distance_b = n"
    and "\<forall>x \<in> set distance_a. 0 \<le> x" and "\<forall>x \<in> set distance_b. 0 \<le> x"
    and "k < n"
  shows "0 \<le> weits_a ! k \<and> 0 \<le> weits_b ! k \<and> weits_a ! k + weits_b ! k = 1
       \<and> (distance_a ! k = 0 \<and> distance_b ! k = 0 \<longrightarrow> weits_a ! k = 1 \<and> weits_b ! k = 0)"
proof -
  from assms have a: "0 \<le> distance_a ! k" and b: "0 \<le> distance_b ! k" by simp_all
  from assms(1) have "map2 (\<lambda>a b. if a + b \<noteq> 0 then b / (a + b) else 1)
                         distance_a distance_b = weits_a
      \<and> map (\<lambda>w. 1 - w) (map2 (\<lambda>a b. if a + b \<noteq> 0 then b / (a + b) else 1)
                         distance_a distance_b) = weits_b"
    by (auto simp: get_interpolation_weits_def Let_def)
  then have wa: "weits_a = map2 (\<lambda>a b. if a + b \<noteq> 0 then b / (a + b) else 1)
                                    distance_a distance_b"
    and wb: "weits_b = map (\<lambda>w. 1 - w) weits_a"
    by blast+
  from wa assms(2,3,6) have wak: "weits_a ! k =
      (if distance_a ! k + distance_b ! k \<noteq> 0
       then distance_b ! k / (distance_a ! k + distance_b ! k) else 1)"
    by simp
  from wa wb assms(2,3,6) have wbk: "weits_b ! k = 1 - weits_a ! k" by simp
  from a b have "0 \<le> weits_a ! k" unfolding wak by simp
  moreover from a b have "weits_a ! k \<le> 1" unfolding wak
    by (simp add: divide_le_eq)
  moreover from a b have "distance_a ! k = 0 \<and> distance_b ! k = 0 \<longrightarrow> weits_a ! k = 1"
    unfolding wak by simp
  ultimately show ?thesis using wbk by simp
qed

subsection \<open>References and weights\<close>

lemma and_then_Inr:
  assumes "and_then m f = Some (Inr r)"
  obtains x where "m = Some (Inr x)" and "f x = Some (Inr r)"
  using assms by (auto simp: and_then_def split: option.splits sum.splits)

lemma and_then_Inr_pair:
  assumes "and_then m (\<lambda>(a, b). f a b) = Some (Inr r)"
  obtains a b where "m = Some (Inr (a, b))" and "f a b = Some (Inr r)"
  using assms by (auto simp: and_then_def split: option.splits sum.splits)

lemma interpolation_result:
  assumes ret: "interpolation nb hdn isd n = Some (Inr (di, dw))"
    and keyrow: "\<forall>k<n. isd ! k \<longrightarrow> hdn ! k"
  shows "length di = n \<and> length dw = n
       \<and> (\<forall>k<n. length (di ! k) = 4 \<and> length (dw ! k) = 4
             \<and> (\<forall>r \<in> set (di ! k). np_ok isd r \<and> np_nth isd r)
             \<and> (\<forall>w \<in> set (dw ! k). 0 \<le> w)
             \<and> sum_list (dw ! k) = 1
             \<and> (isd ! k \<longrightarrow> di ! k = [int k, int k, int k, int k] \<and> dw ! k = [1, 0, 0, 0]))"
proof -
  let ?frum = "map int [0..<n]"
  from ret obtain n_ref n_dist where
    n: "follow_graph (north_neibor nb) ?frum hdn = Some (Inr (n_ref, n_dist))"
    and r1: "and_then (follow_graph (east_neibor nb) n_ref isd)
       (\<lambda>(ne_reference, ne_distance).
     and_then (follow_graph (west_neibor nb) n_ref isd)
       (\<lambda>(nw_reference, nw_distance).
     and_then (follow_graph (south_neibor nb) (map int [0..<n]) hdn)
       (\<lambda>(s_reference, s_distance).
     and_then (follow_graph (east_neibor nb) s_reference isd)
       (\<lambda>(se_reference, se_distance).
     and_then (follow_graph (west_neibor nb) s_reference isd)
       (\<lambda>(sw_reference, sw_distance).
        let (n_weit, s_weit) = get_interpolation_weits n_dist s_distance;
            (ne_weit, nw_weit) = get_interpolation_weits ne_distance nw_distance;
            (se_weit, sw_weit) = get_interpolation_weits se_distance sw_distance;
            defining_indices =
              map (\<lambda>k. [ne_reference ! k, nw_reference ! k, se_reference ! k, sw_reference ! k])
                [0..<n];
            defining_weits =
              map (\<lambda>k. [n_weit ! k * ne_weit ! k, n_weit ! k * nw_weit ! k,
                         s_weit ! k * se_weit ! k, s_weit ! k * sw_weit ! k])
                [0..<n]
        in Some (Inr (defining_indices, defining_weits)))))))
      = Some (Inr (di, dw))"
    unfolding interpolation_def by (rule and_then_Inr_pair)
  from r1 obtain ne_ref ne_dist where
    ne: "follow_graph (east_neibor nb) n_ref isd = Some (Inr (ne_ref, ne_dist))"
    and r2: "and_then (follow_graph (west_neibor nb) n_ref isd)
       (\<lambda>(nw_reference, nw_distance).
     and_then (follow_graph (south_neibor nb) (map int [0..<n]) hdn)
       (\<lambda>(s_reference, s_distance).
     and_then (follow_graph (east_neibor nb) s_reference isd)
       (\<lambda>(se_reference, se_distance).
     and_then (follow_graph (west_neibor nb) s_reference isd)
       (\<lambda>(sw_reference, sw_distance).
        let (n_weit, s_weit) = get_interpolation_weits n_dist s_distance;
            (ne_weit, nw_weit) = get_interpolation_weits ne_dist nw_distance;
            (se_weit, sw_weit) = get_interpolation_weits se_distance sw_distance;
            defining_indices =
              map (\<lambda>k. [ne_ref ! k, nw_reference ! k, se_reference ! k, sw_reference ! k])
                [0..<n];
            defining_weits =
              map (\<lambda>k. [n_weit ! k * ne_weit ! k, n_weit ! k * nw_weit ! k,
                         s_weit ! k * se_weit ! k, s_weit ! k * sw_weit ! k])
                [0..<n]
        in Some (Inr (defining_indices, defining_weits))))))
      = Some (Inr (di, dw))"
    by (rule and_then_Inr_pair)
  from r2 obtain nw_ref nw_dist where
    nw: "follow_graph (west_neibor nb) n_ref isd = Some (Inr (nw_ref, nw_dist))"
    and r3: "and_then (follow_graph (south_neibor nb) (map int [0..<n]) hdn)
       (\<lambda>(s_reference, s_distance).
     and_then (follow_graph (east_neibor nb) s_reference isd)
       (\<lambda>(se_reference, se_distance).
     and_then (follow_graph (west_neibor nb) s_reference isd)
       (\<lambda>(sw_reference, sw_distance).
        let (n_weit, s_weit) = get_interpolation_weits n_dist s_distance;
            (ne_weit, nw_weit) = get_interpolation_weits ne_dist nw_dist;
            (se_weit, sw_weit) = get_interpolation_weits se_distance sw_distance;
            defining_indices =
              map (\<lambda>k. [ne_ref ! k, nw_ref ! k, se_reference ! k, sw_reference ! k])
                [0..<n];
            defining_weits =
              map (\<lambda>k. [n_weit ! k * ne_weit ! k, n_weit ! k * nw_weit ! k,
                         s_weit ! k * se_weit ! k, s_weit ! k * sw_weit ! k])
                [0..<n]
        in Some (Inr (defining_indices, defining_weits)))))
      = Some (Inr (di, dw))"
    by (rule and_then_Inr_pair)
  from r3 obtain s_ref s_dist where
    s: "follow_graph (south_neibor nb) ?frum hdn = Some (Inr (s_ref, s_dist))"
    and r4: "and_then (follow_graph (east_neibor nb) s_ref isd)
       (\<lambda>(se_reference, se_distance).
     and_then (follow_graph (west_neibor nb) s_ref isd)
       (\<lambda>(sw_reference, sw_distance).
        let (n_weit, s_weit) = get_interpolation_weits n_dist s_dist;
            (ne_weit, nw_weit) = get_interpolation_weits ne_dist nw_dist;
            (se_weit, sw_weit) = get_interpolation_weits se_distance sw_distance;
            defining_indices =
              map (\<lambda>k. [ne_ref ! k, nw_ref ! k, se_reference ! k, sw_reference ! k])
                [0..<n];
            defining_weits =
              map (\<lambda>k. [n_weit ! k * ne_weit ! k, n_weit ! k * nw_weit ! k,
                         s_weit ! k * se_weit ! k, s_weit ! k * sw_weit ! k])
                [0..<n]
        in Some (Inr (defining_indices, defining_weits))))
      = Some (Inr (di, dw))"
    by (rule and_then_Inr_pair)
  from r4 obtain se_ref se_dist where
    se: "follow_graph (east_neibor nb) s_ref isd = Some (Inr (se_ref, se_dist))"
    and r5: "and_then (follow_graph (west_neibor nb) s_ref isd)
       (\<lambda>(sw_reference, sw_distance).
        let (n_weit, s_weit) = get_interpolation_weits n_dist s_dist;
            (ne_weit, nw_weit) = get_interpolation_weits ne_dist nw_dist;
            (se_weit, sw_weit) = get_interpolation_weits se_dist sw_distance;
            defining_indices =
              map (\<lambda>k. [ne_ref ! k, nw_ref ! k, se_ref ! k, sw_reference ! k])
                [0..<n];
            defining_weits =
              map (\<lambda>k. [n_weit ! k * ne_weit ! k, n_weit ! k * nw_weit ! k,
                         s_weit ! k * se_weit ! k, s_weit ! k * sw_weit ! k])
                [0..<n]
        in Some (Inr (defining_indices, defining_weits)))
      = Some (Inr (di, dw))"
    by (rule and_then_Inr_pair)
  from r5 obtain sw_ref sw_dist where
    sw: "follow_graph (west_neibor nb) s_ref isd = Some (Inr (sw_ref, sw_dist))"
    and r6: "(let (n_weit, s_weit) = get_interpolation_weits n_dist s_dist;
            (ne_weit, nw_weit) = get_interpolation_weits ne_dist nw_dist;
            (se_weit, sw_weit) = get_interpolation_weits se_dist sw_dist;
            defining_indices =
              map (\<lambda>k. [ne_ref ! k, nw_ref ! k, se_ref ! k, sw_ref ! k])
                [0..<n];
            defining_weits =
              map (\<lambda>k. [n_weit ! k * ne_weit ! k, n_weit ! k * nw_weit ! k,
                         s_weit ! k * se_weit ! k, s_weit ! k * sw_weit ! k])
                [0..<n]
        in Some (Inr (defining_indices, defining_weits)))
      = (Some (Inr (di, dw)) :: (error + int list list \<times> real list list) option)"
    by (rule and_then_Inr_pair)
  obtain n_weit s_weit where wns: "get_interpolation_weits n_dist s_dist = (n_weit, s_weit)"
    by (cases "get_interpolation_weits n_dist s_dist")
  obtain ne_weit nw_weit where wn: "get_interpolation_weits ne_dist nw_dist = (ne_weit, nw_weit)"
    by (cases "get_interpolation_weits ne_dist nw_dist")
  obtain se_weit sw_weit where ws: "get_interpolation_weits se_dist sw_dist = (se_weit, sw_weit)"
    by (cases "get_interpolation_weits se_dist sw_dist")
  from r6 have di: "di = map (\<lambda>k. [ne_ref ! k, nw_ref ! k, se_ref ! k, sw_ref ! k]) [0..<n]"
    and dw: "dw = map (\<lambda>k. [n_weit ! k * ne_weit ! k, n_weit ! k * nw_weit ! k,
                         s_weit ! k * se_weit ! k, s_weit ! k * sw_weit ! k]) [0..<n]"
    by (simp_all add: wns wn ws)
  note fn = follow_graph_result [OF n] and fs = follow_graph_result [OF s]
  have ln: "length n_ref = n" "length n_dist = n" and ls: "length s_ref = n" "length s_dist = n"
    using fn fs by simp_all
  note fne = follow_graph_result [OF ne] and fnw = follow_graph_result [OF nw]
    and fse = follow_graph_result [OF se] and fsw = follow_graph_result [OF sw]
  have lne: "length ne_ref = n" "length ne_dist = n"
    and lnw: "length nw_ref = n" "length nw_dist = n"
    and lse: "length se_ref = n" "length se_dist = n"
    and lsw: "length sw_ref = n" "length sw_dist = n"
    using fne fnw fse fsw ln ls by simp_all
  have "length (di ! k) = 4 \<and> length (dw ! k) = 4
             \<and> (\<forall>r \<in> set (di ! k). np_ok isd r \<and> np_nth isd r)
             \<and> (\<forall>w \<in> set (dw ! k). 0 \<le> w)
             \<and> sum_list (dw ! k) = 1
             \<and> (isd ! k \<longrightarrow> di ! k = [int k, int k, int k, int k] \<and> dw ! k = [1, 0, 0, 0])"
    if k: "k < n" for k
  proof -
    have dik: "di ! k = [ne_ref ! k, nw_ref ! k, se_ref ! k, sw_ref ! k]"
      and dwk: "dw ! k = [n_weit ! k * ne_weit ! k, n_weit ! k * nw_weit ! k,
                         s_weit ! k * se_weit ! k, s_weit ! k * sw_weit ! k]"
      using k by (simp_all add: di dw)
    have mem: "ne_ref ! k \<in> set ne_ref" "nw_ref ! k \<in> set nw_ref"
      "se_ref ! k \<in> set se_ref" "sw_ref ! k \<in> set sw_ref"
      using k lne lnw lse lsw by simp_all
    have refs: "\<forall>r \<in> set (di ! k). np_ok isd r \<and> np_nth isd r"
      unfolding dik using mem fne fnw fse fsw by simp
    have w1: "0 \<le> n_weit ! k \<and> 0 \<le> s_weit ! k \<and> n_weit ! k + s_weit ! k = 1
       \<and> (n_dist ! k = 0 \<and> s_dist ! k = 0 \<longrightarrow> n_weit ! k = 1 \<and> s_weit ! k = 0)"
      using wns ln(2) ls(2) _ _ k by (rule interpolation_weits) (use fn fs in simp_all)
    have w2: "0 \<le> ne_weit ! k \<and> 0 \<le> nw_weit ! k \<and> ne_weit ! k + nw_weit ! k = 1
       \<and> (ne_dist ! k = 0 \<and> nw_dist ! k = 0 \<longrightarrow> ne_weit ! k = 1 \<and> nw_weit ! k = 0)"
      using wn lne(2) lnw(2) _ _ k by (rule interpolation_weits) (use fne fnw in simp_all)
    have w3: "0 \<le> se_weit ! k \<and> 0 \<le> sw_weit ! k \<and> se_weit ! k + sw_weit ! k = 1
       \<and> (se_dist ! k = 0 \<and> sw_dist ! k = 0 \<longrightarrow> se_weit ! k = 1 \<and> sw_weit ! k = 0)"
      using ws lse(2) lsw(2) _ _ k by (rule interpolation_weits) (use fse fsw in simp_all)
    have nonneg: "\<forall>w \<in> set (dw ! k). 0 \<le> w"
      unfolding dwk using w1 w2 w3 by simp
    have "n_weit ! k * ne_weit ! k + n_weit ! k * nw_weit ! k
          + (s_weit ! k * se_weit ! k + s_weit ! k * sw_weit ! k)
        = n_weit ! k * (ne_weit ! k + nw_weit ! k) + s_weit ! k * (se_weit ! k + sw_weit ! k)"
      by (simp add: algebra_simps)
    also have "\<dots> = 1" using w1 w2 w3 by simp
    finally have total: "sum_list (dw ! k) = 1" unfolding dwk by simp
    have key: "di ! k = [int k, int k, int k, int k] \<and> dw ! k = [1, 0, 0, 0]" if d: "isd ! k"
    proof -
      from d keyrow k have h: "hdn ! k" by simp
      have fk: "?frum ! k = int k" using k by simp
      have hk: "np_nth hdn (?frum ! k)" unfolding fk np_nth_nat by (rule h)
      from fn k hk fk have nk: "n_ref ! k = int k" "n_dist ! k = 0" by simp_all
      from fs k hk fk have sk: "s_ref ! k = int k" "s_dist ! k = 0" by simp_all
      have dn: "np_nth isd (n_ref ! k)" unfolding nk np_nth_nat by (rule d)
      have ds: "np_nth isd (s_ref ! k)" unfolding sk np_nth_nat by (rule d)
      from fne k ln dn nk have nek: "ne_ref ! k = int k" "ne_dist ! k = 0" by simp_all
      from fnw k ln dn nk have nwk: "nw_ref ! k = int k" "nw_dist ! k = 0" by simp_all
      from fse k ls ds sk have sek: "se_ref ! k = int k" "se_dist ! k = 0" by simp_all
      from fsw k ls ds sk have swk: "sw_ref ! k = int k" "sw_dist ! k = 0" by simp_all
      from w1 nk sk have "n_weit ! k = 1" "s_weit ! k = 0" by simp_all
      moreover from w2 nek nwk have "ne_weit ! k = 1" "nw_weit ! k = 0" by simp_all
      ultimately show ?thesis unfolding dik dwk using nek nwk sek swk by simp
    qed
    from dik dwk refs nonneg total key show ?thesis by simp
  qed
  then show ?thesis by (simp add: di dw)
qed

subsection \<open>Loops keep the lengths of the arrays\<close>

lemma for_each_invariant:
  assumes "for_each body xs s = Inr s'"
    and "P s"
    and "\<And>x s s'. P s \<Longrightarrow> body x s = Inr s' \<Longrightarrow> P s'"
  shows "P s'"
  using assms(1,2)
proof (induction xs arbitrary: s)
  case Nil
  then show ?case by simp
next
  case (Cons x xs)
  from Cons.prems(1) obtain s1 where b: "body x s = Inr s1" and r: "for_each body xs s1 = Inr s'"
    by (auto split: sum.splits)
  from Cons.prems(2) b have "P s1" by (rule assms(3))
  with r show ?case by (rule Cons.IH)
qed

lemma np_set_length: "length (np_set xs i v) = length xs"
  by (simp add: np_set_def)

lemma link_node_length:
  assumes "graphs_of_length n nb" and "link_node t p nb = Inr nb'"
  shows "graphs_of_length n nb'"
proof -
  obtain h i j where p: "p = (h, i, j)" by (cases p)
  from assms show ?thesis
    unfolding p link_node_def graphs_of_length_def Let_def
    by (auto simp: np_set_length split: if_splits)
qed

lemma connection_graphs_length:
  assumes "connection_graphs t n = Inr nb"
  shows "graphs_of_length n nb"
  using assms unfolding connection_graphs_def
proof (rule for_each_invariant)
  show "graphs_of_length n \<lparr>east_neibor = replicate n (-1), west_neibor = replicate n (-1),
        north_neibor = replicate n (-1), south_neibor = replicate n (-1)\<rparr>"
    by (simp add: graphs_of_length_def)
next
  fix x s s'
  assume "graphs_of_length n s" and "link_node t x s = Inr s'"
  then show "graphs_of_length n s'" by (rule link_node_length)
qed

lemma mark_node_length:
  assumes "length (fst marks) = a \<and> length (snd marks) = b"
    and "mark_node t factor ewfs h i j marks = Inr marks'"
  shows "length (fst marks') = a \<and> length (snd marks') = b"
proof -
  obtain r c where m: "marks = (r, c)" by (cases marks)
  from assms show ?thesis
    unfolding m mark_node_def Let_def
    by (auto simp: np_set_length split: if_splits)
qed

lemma mark_row_length:
  assumes "length (fst marks) = a \<and> length (snd marks) = b"
    and "mark_row t factor ewfs p marks = Inr marks'"
  shows "length (fst marks') = a \<and> length (snd marks') = b"
proof -
  obtain h i where p: "p = (h, i)" by (cases p)
  from assms(2) have "for_each (mark_node t factor ewfs h i) [0..<n_cols t] marks = Inr marks'"
    unfolding p mark_row_def by (auto split: if_splits)
  then show ?thesis
  proof (rule for_each_invariant)
    show "length (fst marks) = a \<and> length (snd marks) = b" by (rule assms(1))
  next
    fix x s s'
    assume "length (fst s) = a \<and> length (snd s) = b"
      and "mark_node t factor ewfs h i x s = Inr s'"
    then show "length (fst s') = a \<and> length (snd s') = b" by (rule mark_node_length)
  qed
qed

lemma choose_keys_result:
  assumes ret: "choose_keys t factor ewfs n nb = Inr (hdn, isd)"
    and nb: "graphs_of_length n nb"
  shows "length hdn = n + 1 \<and> length isd = n \<and> (\<forall>k<n. isd ! k \<longrightarrow> hdn ! k)"
proof -
  from ret obtain marked_rows marked_cols where
    loop: "for_each (mark_row t factor ewfs) (List.product [0..<n_sections t] [0..<n_rows t])
             (replicate (n + 1) False, replicate n False) = Inr (marked_rows, marked_cols)"
    unfolding choose_keys_def by (auto split: sum.splits)
  have "length (fst (marked_rows, marked_cols)) = n + 1
        \<and> length (snd (marked_rows, marked_cols)) = n"
    using loop
  proof (rule for_each_invariant)
    show "length (fst (replicate (n + 1) False, replicate n False)) = n + 1
          \<and> length (snd (replicate (n + 1) False, replicate n False)) = n"
      by simp
  next
    fix x s s'
    assume "length (fst s) = n + 1 \<and> length (snd s) = n"
      and "mark_row t factor ewfs x s = Inr s'"
    then show "length (fst s') = n + 1 \<and> length (snd s') = n" by (rule mark_row_length)
  qed
  then have lr: "length marked_rows = n + 1" and lc: "length marked_cols = n" by simp_all
  define hdn0 where "hdn0 = map2 (\<lambda>d (n, s). d \<or> n = -1 \<or> s = -1) (butlast marked_rows)
                  (zip (north_neibor nb) (south_neibor nb)) @ [last marked_rows]"
  define isd0 where "isd0 = map2 (\<lambda>d (e, w). d \<or> \<not> np_nth hdn0 e \<or> \<not> np_nth hdn0 w)
                       marked_cols (zip (east_neibor nb) (west_neibor nb))"
  from ret loop have hdn: "hdn = hdn0" and isd: "isd = map2 (\<lambda>d r. d \<and> r) isd0 (butlast hdn0)"
    unfolding choose_keys_def hdn0_def isd0_def
    by (auto simp: Let_def split: if_splits)
  from nb lr have lh: "length hdn0 = n + 1"
    by (simp add: hdn0_def graphs_of_length_def)
  from nb lc have l0: "length isd0 = n"
    by (simp add: isd0_def graphs_of_length_def)
  from lh l0 have li: "length isd = n" by (simp add: isd)
  have "isd ! k \<longrightarrow> hdn ! k" if "k < n" for k
    using that lh l0 by (simp add: isd hdn nth_butlast)
  with lh li show ?thesis by (simp add: hdn)
qed

subsection \<open>The reduction and the new indices\<close>

lemma cumsum_from_length: "length (cumsum_from acc bs) = length bs"
  by (induction bs arbitrary: acc) simp_all

lemma cumsum_from_nth:
  "k < length bs \<Longrightarrow> cumsum_from acc bs ! k = acc + int (count_true (take (Suc k) bs))"
proof (induction bs arbitrary: acc k)
  case Nil
  then show ?case by simp
next
  case (Cons b bs)
  show ?case
  proof (cases k)
    case 0
    then show ?thesis by (simp add: count_true_def)
  next
    case (Suc k')
    with Cons.prems have "k' < length bs" by simp
    from Cons.IH [OF this] Suc show ?thesis by (simp add: count_true_def)
  qed
qed

lemma reindex_of_length: "length (reindex_of bs) = length bs"
  by (simp add: reindex_of_def cumsum_from_length)

lemma reindex_of_key:
  assumes "k < length bs" and "bs ! k"
  shows "reindex_of bs ! k = int (count_true (take k bs))"
proof -
  from assms have "take (Suc k) bs = take k bs @ [True]"
    by (simp add: take_Suc_conv_app_nth)
  then have "count_true (take (Suc k) bs) = count_true (take k bs) + 1"
    by (simp add: count_true_def)
  with assms show ?thesis
    by (simp add: reindex_of_def cumsum_from_length cumsum_from_nth)
qed

lemma count_true_take_less:
  assumes "k < length bs" and "bs ! k"
  shows "count_true (take k bs) < count_true bs"
proof -
  from assms have "bs = take k bs @ True # drop (Suc k) bs"
    by (metis id_take_nth_drop)
  then have "count_true bs = count_true (take k bs @ True # drop (Suc k) bs)" by simp
  then show ?thesis by (simp add: count_true_def)
qed

lemma restriction_length:
  "length other = length bs \<Longrightarrow> length (matmul (Restriction bs) other) = count_true bs"
proof (induction bs arbitrary: other)
  case Nil
  then show ?case by (simp add: count_true_def)
next
  case (Cons b bs)
  then obtain p ps where o: "other = p # ps" by (cases other) auto
  with Cons.prems have "length ps = length bs" by simp
  from Cons.IH [OF this] o show ?case by (simp add: count_true_def)
qed

lemma restriction_nth:
  assumes "length other = length bs" and "k < length bs" and "bs ! k"
  shows "matmul (Restriction bs) other ! count_true (take k bs) = other ! k"
  using assms
proof (induction bs arbitrary: other k)
  case Nil
  then show ?case by simp
next
  case (Cons b bs)
  then obtain p ps where o: "other = p # ps" by (cases other) auto
  with Cons.prems have l: "length ps = length bs" by simp
  show ?case
  proof (cases k)
    case 0
    with Cons.prems o show ?thesis by (simp add: count_true_def)
  next
    case (Suc k')
    with Cons.prems have "k' < length bs" and "bs ! k'" by simp_all
    from Cons.IH [OF l this] have "matmul (Restriction bs) ps ! count_true (take k' bs) = ps ! k'" .
    with Suc o show ?thesis by (simp add: count_true_def)
  qed
qed

lemma fold_max_reindex:
  assumes "acc - 1 \<le> x" and "0 \<le> acc"
  shows "fold max (map2 (\<lambda>d c. if d then c - 1 else -1) bs (cumsum_from acc bs)) x
         = max x (acc + int (count_true bs) - 1)"
  using assms
proof (induction bs arbitrary: acc x)
  case Nil
  then show ?case by (simp add: count_true_def)
next
  case (Cons b bs)
  show ?case
  proof (cases b)
    case True
    have "fold max (map2 (\<lambda>d c. if d then c - 1 else -1) bs (cumsum_from (acc + 1) bs)) (max acc x)
          = max (max acc x) (acc + 1 + int (count_true bs) - 1)"
      using Cons.prems by (intro Cons.IH) simp_all
    with True show ?thesis by (simp add: count_true_def)
  next
    case False
    have "fold max (map2 (\<lambda>d c. if d then c - 1 else -1) bs (cumsum_from acc bs)) (max (-1) x)
          = max (max (-1) x) (acc + int (count_true bs) - 1)"
      using Cons.prems by (intro Cons.IH) simp_all
    with False Cons.prems show ?thesis by (simp add: count_true_def)
  qed
qed

lemma n_partial_count:
  assumes "reindex_of bs = r # rs"
  shows "nat (fold max rs r + 1) = count_true bs"
proof -
  from assms obtain b bs' where bs: "bs = b # bs'"
    by (cases bs) (simp_all add: reindex_of_def)
  let ?acc = "if b then 1 else (0::int)"
  from assms have r: "r = ?acc - 1"
    and rs: "rs = map2 (\<lambda>d c. if d then c - 1 else -1) bs' (cumsum_from ?acc bs')"
    unfolding bs reindex_of_def by auto
  have "fold max rs r = max r (?acc + int (count_true bs') - 1)"
    unfolding rs by (rule fold_max_reindex) (simp_all add: r)
  also have "\<dots> = ?acc + int (count_true bs') - 1" by (simp add: r)
  also have "\<dots> = int (count_true bs) - 1" by (simp add: bs count_true_def)
  finally show ?thesis by simp
qed

subsection \<open>Restoration after reduction\<close>

lemma weighted_sum_cong:
  assumes "length refs = length refs'"
    and "\<forall>c<length refs. np_nth v (refs ! c) = np_nth v' (refs' ! c)"
  shows "weighted_sum v refs ws = weighted_sum v' refs' ws"
proof -
  have "map2 (\<lambda>r w. scale_point w (np_nth v r)) refs ws
        = map2 (\<lambda>r w. scale_point w (np_nth v' r)) refs' ws"
    using assms by (intro nth_equalityI) simp_all
  then show ?thesis by (simp add: weighted_sum_def)
qed

lemma weighted_sum_key:
  "weighted_sum v [int k, int k, int k, int k] [1, 0, 0, 0] = v ! k"
  by (simp add: weighted_sum_def scale_point_def add_point_def np_nth_nat)

lemma key_reference:
  assumes ok: "np_ok isd r" and key: "np_nth isd r"
  shows "np_pos isd r < length isd" and "isd ! np_pos isd r"
    and "np_nth (reindex_of isd) r = int (count_true (take (np_pos isd r) isd))"
    and "0 \<le> np_nth (reindex_of isd) r"
    and "np_nth (reindex_of isd) r < int (count_true isd)"
proof -
  let ?p = "np_pos isd r"
  from ok show p: "?p < length isd" by (rule np_ok_pos)
  from key show d: "isd ! ?p" by (simp add: np_nth_def)
  have "np_pos (reindex_of isd) r = ?p" by (simp add: np_pos_def reindex_of_length)
  then have "np_nth (reindex_of isd) r = reindex_of isd ! ?p" by (simp add: np_nth_def)
  with p d show re: "np_nth (reindex_of isd) r = int (count_true (take ?p isd))"
    by (simp add: reindex_of_key)
  then show "0 \<le> np_nth (reindex_of isd) r" by simp
  from p d have "count_true (take ?p isd) < count_true isd" by (rule count_true_take_less)
  with re show "np_nth (reindex_of isd) r < int (count_true isd)" by simp
qed

lemma reduced_reference:
  assumes len: "length positions = length isd"
    and ok: "np_ok isd r" and key: "np_nth isd r"
  shows "np_nth (matmul (Restriction isd) positions) (np_nth (reindex_of isd) r)
         = np_nth positions (int (np_pos isd r))"
proof -
  let ?p = "np_pos isd r"
  note k = key_reference [OF ok key]
  from len k(1,2) have "matmul (Restriction isd) positions ! count_true (take ?p isd)
                        = positions ! ?p"
    by (rule restriction_nth)
  then show ?thesis unfolding k(3) np_nth_nat .
qed

text \<open>
  Whatever the lookup table: the pair that \<open>mesh_skeleton\<close> returns, when it returns one.
\<close>

lemma restoration_of_result:
  assumes ret: "mesh_skeleton lookup_table factor east_west_factors
                  = Some (Inr (reduce, restoration))"
  shows "\<exists>is_defined n_partial refs weights.
      reduce = Restriction is_defined
    \<and> restoration = FromCoordinates n_partial refs weights
    \<and> int (length is_defined) = Max (set (concat (concat lookup_table))) + 1
    \<and> n_partial = count_true is_defined
    \<and> length refs = length is_defined \<and> length weights = length is_defined
    \<and> (\<forall>k<length is_defined.
          length (refs ! k) = 4 \<and> length (weights ! k) = 4
        \<and> (\<forall>r \<in> set (refs ! k). 0 \<le> r \<and> r < int n_partial)
        \<and> (\<forall>w \<in> set (weights ! k). 0 \<le> w)
        \<and> sum_list (weights ! k) = 1)
    \<and> (\<forall>positions. length positions = length is_defined \<longrightarrow>
          length (matmul reduce positions) = n_partial
        \<and> length (matmul restoration (matmul reduce positions)) = length is_defined
        \<and> (\<forall>k<length is_defined.
              (is_defined ! k \<longrightarrow>
                 matmul restoration (matmul reduce positions) ! k = positions ! k)
            \<and> (\<exists>keys. length keys = 4
                  \<and> (\<forall>c<4. keys ! c < length is_defined \<and> is_defined ! (keys ! c))
                  \<and> matmul restoration (matmul reduce positions) ! k
                      = weighted_sum positions (map int keys) (weights ! k))))"
proof -
  from ret obtain x xs where cc: "concat (concat lookup_table) = x # xs"
    unfolding mesh_skeleton_def by (auto split: list.splits)
  define n where "n = nat (fold max xs x + 1)"
  from ret cc have nonneg: "0 \<le> fold max xs x + 1"
    unfolding mesh_skeleton_def by (auto split: if_splits)
  from ret cc nonneg obtain nb where nb: "connection_graphs lookup_table n = Inr nb"
    unfolding mesh_skeleton_def n_def by (auto simp: Let_def split: sum.splits)
  from ret cc nonneg nb obtain hdn isd where
    ck: "choose_keys lookup_table factor east_west_factors n nb = Inr (hdn, isd)"
    unfolding mesh_skeleton_def n_def by (auto simp: Let_def split: sum.splits)
  from ret cc nonneg nb ck obtain r rs where re: "reindex_of isd = r # rs"
    unfolding mesh_skeleton_def n_def by (auto simp: Let_def split: list.splits)
  from ret cc nonneg nb ck re have
    "and_then (interpolation nb hdn isd n)
       (\<lambda>(defining_indices, defining_weits).
          Some (Inr (Restriction isd,
                     FromCoordinates (nat (fold max rs r + 1))
                       (map (map (np_nth (r # rs))) defining_indices) defining_weits)))
     = Some (Inr (reduce, restoration))"
    unfolding mesh_skeleton_def n_def by (simp add: Let_def)
  then obtain di dw where ip: "interpolation nb hdn isd n = Some (Inr (di, dw))"
    and res: "(Some (Inr (Restriction isd,
                     FromCoordinates (nat (fold max rs r + 1))
                       (map (map (np_nth (r # rs))) di) dw))
               :: (error + operator \<times> operator) option)
              = Some (Inr (reduce, restoration))"
    by (rule and_then_Inr_pair)
  define refs where "refs = map (map (np_nth (reindex_of isd))) di"
  from re have np: "nat (fold max rs r + 1) = count_true isd" by (rule n_partial_count)
  from res have red: "reduce = Restriction isd"
    and rst: "restoration = FromCoordinates (count_true isd) refs dw"
    by (simp_all add: refs_def re np)
  have gl: "graphs_of_length n nb" using nb by (rule connection_graphs_length)
  from ck gl have lh: "length hdn = n + 1" and li: "length isd = n"
    and kr: "\<forall>k<n. isd ! k \<longrightarrow> hdn ! k"
    using choose_keys_result by blast+
  from ip kr have ldi: "length di = n" and ldw: "length dw = n"
    and rows: "\<forall>k<n. length (di ! k) = 4 \<and> length (dw ! k) = 4
             \<and> (\<forall>r \<in> set (di ! k). np_ok isd r \<and> np_nth isd r)
             \<and> (\<forall>w \<in> set (dw ! k). 0 \<le> w)
             \<and> sum_list (dw ! k) = 1
             \<and> (isd ! k \<longrightarrow> di ! k = [int k, int k, int k, int k] \<and> dw ! k = [1, 0, 0, 0])"
    using interpolation_result by blast+
  have size: "int (length isd) = Max (set (concat (concat lookup_table))) + 1"
  proof -
    have "Max (set (concat (concat lookup_table))) = fold max xs x"
      unfolding cc by (rule Max.set_eq_fold)
    with nonneg show ?thesis by (simp add: li n_def)
  qed
  have lrefs: "length refs = n" by (simp add: refs_def ldi)
  have row_ok: "length (refs ! k) = 4 \<and> length (dw ! k) = 4
        \<and> (\<forall>r \<in> set (refs ! k). 0 \<le> r \<and> r < int (count_true isd))
        \<and> (\<forall>w \<in> set (dw ! k). 0 \<le> w)
        \<and> sum_list (dw ! k) = 1" if k: "k < n" for k
  proof -
    from k ldi have rk: "refs ! k = map (np_nth (reindex_of isd)) (di ! k)"
      by (simp add: refs_def)
    have "0 \<le> np_nth (reindex_of isd) r \<and> np_nth (reindex_of isd) r < int (count_true isd)"
      if "r \<in> set (di ! k)" for r
    proof -
      from rows k that have "np_ok isd r" and "np_nth isd r" by blast+
      then show ?thesis using key_reference(4,5) by blast
    qed
    then have "\<forall>r \<in> set (refs ! k). 0 \<le> r \<and> r < int (count_true isd)"
      unfolding rk by auto
    with rows k rk show ?thesis by simp
  qed
  have restored: "length (matmul reduce positions) = count_true isd
        \<and> length (matmul restoration (matmul reduce positions)) = length isd
        \<and> (\<forall>k<length isd.
              (isd ! k \<longrightarrow> matmul restoration (matmul reduce positions) ! k = positions ! k)
            \<and> (\<exists>keys. length keys = 4
                  \<and> (\<forall>c<4. keys ! c < length isd \<and> isd ! (keys ! c))
                  \<and> matmul restoration (matmul reduce positions) ! k
                      = weighted_sum positions (map int keys) (dw ! k)))"
    if len: "length positions = length isd" for positions
  proof -
    let ?reduced = "matmul (Restriction isd) positions"
    from len have l1: "length (matmul reduce positions) = count_true isd"
      unfolding red by (rule restriction_length)
    have l2: "length (matmul restoration (matmul reduce positions)) = length isd"
      unfolding red rst by (simp add: lrefs ldw li)
    have node: "(isd ! k \<longrightarrow> matmul restoration (matmul reduce positions) ! k = positions ! k)
            \<and> (\<exists>keys. length keys = 4
                  \<and> (\<forall>c<4. keys ! c < length isd \<and> isd ! (keys ! c))
                  \<and> matmul restoration (matmul reduce positions) ! k
                      = weighted_sum positions (map int keys) (dw ! k))"
      if k: "k < length isd" for k
    proof -
      from k li have kn: "k < n" by simp
      from kn ldi have rk: "refs ! k = map (np_nth (reindex_of isd)) (di ! k)"
        by (simp add: refs_def)
      from rows kn have l4: "length (di ! k) = 4"
        and keys: "\<forall>r \<in> set (di ! k). np_ok isd r \<and> np_nth isd r" by blast+
      let ?keys = "map (np_pos isd) (di ! k)"
      have val: "matmul restoration (matmul reduce positions) ! k
                 = weighted_sum ?reduced (refs ! k) (dw ! k)"
        unfolding red rst using kn lrefs ldw by simp
      have "weighted_sum ?reduced (refs ! k) (dw ! k)
            = weighted_sum positions (map int ?keys) (dw ! k)"
      proof (rule weighted_sum_cong)
        show "length (refs ! k) = length (map int ?keys)" by (simp add: rk)
        show "\<forall>c<length (refs ! k). np_nth ?reduced (refs ! k ! c)
                 = np_nth positions (map int ?keys ! c)"
        proof (intro allI impI)
          fix c assume c: "c < length (refs ! k)"
          then have cd: "c < length (di ! k)" by (simp add: rk)
          then have "di ! k ! c \<in> set (di ! k)" by simp
          with keys have "np_ok isd (di ! k ! c)" and "np_nth isd (di ! k ! c)" by blast+
          from reduced_reference [OF len this] cd
          show "np_nth ?reduced (refs ! k ! c) = np_nth positions (map int ?keys ! c)"
            by (simp add: rk)
        qed
      qed
      with val have comb: "matmul restoration (matmul reduce positions) ! k
                 = weighted_sum positions (map int ?keys) (dw ! k)" by simp
      have kk: "\<forall>c<4. ?keys ! c < length isd \<and> isd ! (?keys ! c)"
      proof (intro allI impI)
        fix c :: nat assume "c < 4"
        with l4 have cd: "c < length (di ! k)" by simp
        then have "di ! k ! c \<in> set (di ! k)" by simp
        with keys have "np_ok isd (di ! k ! c)" and "np_nth isd (di ! k ! c)" by blast+
        from key_reference(1,2) [OF this] cd
        show "?keys ! c < length isd \<and> isd ! (?keys ! c)" by simp
      qed
      have exact: "matmul restoration (matmul reduce positions) ! k = positions ! k" if d: "isd ! k"
      proof -
        from rows kn d have dk: "di ! k = [int k, int k, int k, int k]"
          and wk: "dw ! k = [1, 0, 0, 0]" by blast+
        have "map int ?keys = [int k, int k, int k, int k]"
          unfolding dk by (simp add: np_pos_def)
        with comb wk show ?thesis by (simp add: weighted_sum_key)
      qed
      have "length ?keys = 4 \<and> (\<forall>c<4. ?keys ! c < length isd \<and> isd ! (?keys ! c))
              \<and> matmul restoration (matmul reduce positions) ! k
                  = weighted_sum positions (map int ?keys) (dw ! k)"
        using l4 kk comb by simp
      then have "\<exists>keys. length keys = 4
                  \<and> (\<forall>c<4. keys ! c < length isd \<and> isd ! (keys ! c))
                  \<and> matmul restoration (matmul reduce positions) ! k
                      = weighted_sum positions (map int keys) (dw ! k)"
        by (rule exI)
      with exact show ?thesis by blast
    qed
    from l1 l2 node show ?thesis by blast
  qed
  show ?thesis
  proof (intro exI conjI)
    show "reduce = Restriction isd" by (rule red)
    show "restoration = FromCoordinates (count_true isd) refs dw" by (rule rst)
    show "int (length isd) = Max (set (concat (concat lookup_table))) + 1" by (rule size)
    show "count_true isd = count_true isd" by (rule refl)
    show "length refs = length isd" by (simp add: lrefs li)
    show "length dw = length isd" by (simp add: ldw li)
    show "\<forall>k<length isd.
          length (refs ! k) = 4 \<and> length (dw ! k) = 4
        \<and> (\<forall>r \<in> set (refs ! k). 0 \<le> r \<and> r < int (count_true isd))
        \<and> (\<forall>w \<in> set (dw ! k). 0 \<le> w)
        \<and> sum_list (dw ! k) = 1"
      using row_ok li by simp
    show "\<forall>positions. length positions = length isd \<longrightarrow>
          length (matmul reduce positions) = count_true isd
        \<and> length (matmul restoration (matmul reduce positions)) = length isd
        \<and> (\<forall>k<length isd.
              (isd ! k \<longrightarrow> matmul restoration (matmul reduce positions) ! k = positions ! k)
            \<and> (\<exists>keys. length keys = 4
                  \<and> (\<forall>c<4. keys ! c < length isd \<and> isd ! (keys ! c))
                  \<and> matmul restoration (matmul reduce positions) ! k
                      = weighted_sum positions (map int keys) (dw ! k)))"
      using restored by blast
  qed
qed

subsection \<open>Loops that return\<close>

lemma sum_list_less:
  fixes f g :: "'a \<Rightarrow> nat"
  assumes "\<forall>x \<in> set xs. f x \<le> g x" and "\<exists>x \<in> set xs. f x < g x"
  shows "sum_list (map f xs) < sum_list (map g xs)"
  using assms
proof (induction xs)
  case Nil
  then show ?case by simp
next
  case (Cons x xs)
  from Cons.prems(1) have le: "sum_list (map f xs) \<le> sum_list (map g xs)"
    by (intro sum_list_mono) simp
  show ?case
  proof (cases "f x < g x")
    case True
    with le show ?thesis by simp
  next
    case False
    with Cons.prems have "\<exists>y \<in> set xs. f y < g y" and "f x \<le> g x" by auto
    with Cons.IH Cons.prems(1) show ?thesis by simp
  qed
qed

lemma follow_graph_loop_returns:
  fixes rank :: "int \<Rightarrow> nat"
  assumes closed: "\<forall>s \<in> S. np_ok until s \<and> np_ok progression s
            \<and> (\<not> np_nth until s \<longrightarrow>
                  np_nth progression s \<in> S \<and> np_nth progression s \<noteq> s
                  \<and> rank (np_nth progression s) < rank s)"
    and start: "set state \<subseteq> S"
  shows "\<exists>state' dst'. follow_graph_loop progression until state dst = Some (Inr (state', dst'))
           \<and> set state' \<subseteq> S"
  using start
proof (induction "sum_list (map (\<lambda>s. if np_nth until s then 0 else Suc (rank s)) state)"
    arbitrary: state dst rule: less_induct)
  case less
  let ?f = "\<lambda>s. if np_nth until s then 0 else Suc (rank s)"
  let ?step = "\<lambda>s. if np_nth until s then s else np_nth progression s"
  let ?st = "map ?step state"
  let ?d = "map2 (\<lambda>s d. if np_nth until s then d else d + 1) state dst"
  from less.prems closed have ok: "\<forall>s \<in> set state. np_ok until s"
    and okp: "\<forall>s \<in> set state. np_ok progression s" by blast+
  from ok have nc1: "\<not> \<not> (\<forall>s \<in> set state. np_ok until s)" by blast
  from okp have nc3: "\<not> \<not> (\<forall>s \<in> set state. np_ok progression s)" by blast
  show ?case
  proof (cases "\<forall>s \<in> set state. np_nth until s")
    case True
    have "follow_graph_loop progression until state dst = Some (Inr (state, dst))"
      by (simp only: follow_graph_loop.simps [of progression until state dst]
            if_not_P [OF nc1] if_P [OF True])
    with less.prems show ?thesis by simp
  next
    case False
    have cl: "np_nth progression s \<in> S \<and> np_nth progression s \<noteq> s
              \<and> rank (np_nth progression s) < rank s"
      if "s \<in> set state" and "\<not> np_nth until s" for s
    proof -
      from that(1) less.prems have "s \<in> S" by blast
      with closed that(2) show ?thesis by blast
    qed
    have nofix: "\<not> (\<exists>s \<in> set state. \<not> np_nth until s \<and> np_nth progression s = s)"
      using cl by blast
    have unfold: "follow_graph_loop progression until state dst
                  = follow_graph_loop progression until ?st ?d"
      by (simp only: follow_graph_loop.simps [of progression until state dst]
            if_not_P [OF nc1] if_not_P [OF False] if_not_P [OF nc3] if_not_P [OF nofix])
    have sub: "set ?st \<subseteq> S"
    proof
      fix x assume "x \<in> set ?st"
      then obtain s where s: "s \<in> set state" and x: "x = ?step s" by auto
      show "x \<in> S"
      proof (cases "np_nth until s")
        case True
        with s x less.prems show ?thesis by auto
      next
        case False
        with cl [OF s] x show ?thesis by simp
      qed
    qed
    have le: "\<forall>s \<in> set state. ?f (?step s) \<le> ?f s"
    proof
      fix s assume s: "s \<in> set state"
      show "?f (?step s) \<le> ?f s"
      proof (cases "np_nth until s")
        case True
        then show ?thesis by simp
      next
        case False
        with cl [OF s] show ?thesis by simp
      qed
    qed
    from False obtain s0 where s0: "s0 \<in> set state" "\<not> np_nth until s0" by blast
    from cl [OF s0] have "rank (np_nth progression s0) < rank s0" by blast
    with s0 have "?f (?step s0) < ?f s0" by simp
    with s0(1) have lt: "\<exists>s \<in> set state. ?f (?step s) < ?f s" by blast
    have "sum_list (map (\<lambda>s. ?f (?step s)) state) < sum_list (map ?f state)"
      using le lt by (rule sum_list_less)
    then have "sum_list (map ?f ?st) < sum_list (map ?f state)"
      by (simp add: comp_def)
    from less.hyps [OF this sub] show ?thesis unfolding unfold .
  qed
qed

lemma for_each_total:
  assumes "P s"
    and "\<And>x s. x \<in> set xs \<Longrightarrow> P s \<Longrightarrow> \<exists>s'. body x s = Inr s' \<and> P s'"
  shows "\<exists>s'. for_each body xs s = Inr s' \<and> P s'"
  using assms
proof (induction xs arbitrary: s)
  case Nil
  then show ?case by simp
next
  case (Cons x xs)
  from Cons.prems obtain s1 where s1: "body x s = Inr s1" "P s1" by (meson list.set_intros(1))
  have "\<exists>s'. for_each body xs s1 = Inr s' \<and> P s'"
    using s1(2) Cons.prems(2) by (intro Cons.IH) simp_all
  with s1 show ?case by simp
qed

subsection \<open>Fully defined grids\<close>

lemma fully_defined_gridD:
  assumes "fully_defined_grid g"
  shows "g \<noteq> []" and "hd g \<noteq> []"
    and "\<And>row. row \<in> set g \<Longrightarrow> length row = length (hd g)"
    and "distinct (concat g)"
    and "\<And>v. v \<in> set (concat g) \<Longrightarrow> 0 \<le> v"
  using assms unfolding fully_defined_grid_def by blast+

lemma grid_shape:
  assumes "fully_defined_grid g"
  shows "n_sections [g] = 1" and "n_rows [g] = length g" and "n_cols [g] = length (hd g)"
    and "entry [g] 0 i j = g ! i ! j" and "concat (concat [g]) = concat g"
    and "0 < length g" and "0 < length (hd g)"
proof -
  from fully_defined_gridD(1) [OF assms] obtain r rs where g: "g = r # rs" by (cases g) auto
  show "n_sections [g] = 1" by (simp add: n_sections_def)
  show "n_rows [g] = length g" by (simp add: n_rows_def)
  show "n_cols [g] = length (hd g)" by (simp add: n_cols_def g)
  show "entry [g] 0 i j = g ! i ! j" by (simp add: entry_def)
  show "concat (concat [g]) = concat g" by simp
  show "0 < length g" by (simp add: g)
  from fully_defined_gridD(2) [OF assms] show "0 < length (hd g)" by simp
qed

lemma grid_row_length:
  assumes "fully_defined_grid g" and "i < length g"
  shows "length (g ! i) = length (hd g)"
proof -
  from assms(2) have "g ! i \<in> set g" by (rule nth_mem)
  then show ?thesis by (rule fully_defined_gridD(3) [OF assms(1)])
qed

lemma grid_member:
  assumes "fully_defined_grid g" and "i < length g" and "j < length (hd g)"
  shows "g ! i ! j \<in> set (concat g)"
proof -
  from assms have "j < length (g ! i)" by (simp only: grid_row_length)
  then have "g ! i ! j \<in> set (g ! i)" by (rule nth_mem)
  moreover from assms(2) have "g ! i \<in> set g" by (rule nth_mem)
  ultimately show ?thesis by auto
qed

lemma grid_injective:
  assumes g: "fully_defined_grid g"
    and i: "i < length g" and j: "j < length (hd g)"
    and i': "i' < length g" and j': "j' < length (hd g)"
    and eq: "g ! i ! j = g ! i' ! j'"
  shows "i = i' \<and> j = j'"
proof -
  from g have d: "distinct (concat g)" by (rule fully_defined_gridD(4))
  note dd = d [unfolded distinct_concat_iff]
  from dd have d1: "distinct (removeAll [] g)" by (rule conjunct1)
  from dd have d2: "\<forall>ys. ys \<in> set g \<longrightarrow> distinct ys" by (rule conjunct2 [THEN conjunct1])
  from dd have d3: "\<forall>ys zs. ys \<in> set g \<and> zs \<in> set g \<and> ys \<noteq> zs \<longrightarrow> set ys \<inter> set zs = {}"
    by (rule conjunct2 [THEN conjunct2])
  from g i j have lj: "j < length (g ! i)" by (simp only: grid_row_length)
  from g i' j' have lj': "j' < length (g ! i')" by (simp only: grid_row_length)
  have mi: "g ! i \<in> set g" and mi': "g ! i' \<in> set g" using i i' by simp_all
  from lj have a: "g ! i ! j \<in> set (g ! i)" by (rule nth_mem)
  from lj' have "g ! i' ! j' \<in> set (g ! i')" by (rule nth_mem)
  with eq have b: "g ! i ! j \<in> set (g ! i')" by simp
  from a b have ne: "set (g ! i) \<inter> set (g ! i') \<noteq> {}" by blast
  have rows: "g ! i = g ! i'"
  proof (rule ccontr)
    assume "g ! i \<noteq> g ! i'"
    with d3 mi mi' have "set (g ! i) \<inter> set (g ! i') = {}" by blast
    with ne show False by contradiction
  qed
  have "[] \<notin> set g"
  proof
    assume "[] \<in> set g"
    then have "length ([]::int list) = length (hd g)" by (rule fully_defined_gridD(3) [OF g])
    then have "length (hd g) = 0" by simp
    with j show False by simp
  qed
  then have "removeAll [] g = g" by (rule removeAll_id)
  with d1 have "distinct g" by simp
  with rows i i' have ii: "i = i'" by (simp only: nth_eq_iff_index_eq)
  from d2 mi have "distinct (g ! i)" by blast
  moreover from eq ii have "g ! i ! j = g ! i ! j'" by simp
  moreover from lj' ii have "j' < length (g ! i)" by simp
  ultimately have "j = j'" using lj by (simp only: nth_eq_iff_index_eq)
  with ii show ?thesis by simp
qed

lemma grid_node:
  assumes g: "fully_defined_grid g" and cc: "concat g = x # xs"
    and v: "v \<in> set (concat g)"
  shows "0 \<le> v" and "v < int (nat (fold max xs x + 1))" and "0 \<le> fold max xs x + 1"
proof -
  from v show 0: "0 \<le> v" by (rule fully_defined_gridD(5) [OF g])
  have "Max (set (concat g)) = fold max xs x" unfolding cc by (rule Max.set_eq_fold)
  moreover from v have "v \<le> Max (set (concat g))" by simp
  ultimately have "v \<le> fold max xs x" by simp
  with 0 show "v < int (nat (fold max xs x + 1))" and "0 \<le> fold max xs x + 1" by simp_all
qed

lemma np_set_nat:
  assumes "0 \<le> v"
  shows "np_set xs v y = xs[nat v := y]"
  using assms by (simp add: np_set_def np_pos_def)

lemma np_nth_nonneg: "0 \<le> v \<Longrightarrow> np_nth xs v = xs ! nat v"
  by (simp add: np_nth_def np_pos_def)

lemma np_ok_nat: "0 \<le> v \<Longrightarrow> nat v < length xs \<Longrightarrow> np_ok xs v"
  by (simp add: np_ok_def)

lemma update_linked:
  assumes old: "\<forall>s<n. xs ! s \<noteq> -1 \<longrightarrow> Q s (xs ! s)"
    and new: "c \<Longrightarrow> Q k y"
  shows "\<forall>s<n. (if c then xs[k := y] else xs) ! s \<noteq> (-1::int)
                 \<longrightarrow> Q s ((if c then xs[k := y] else xs) ! s)"
proof (intro allI impI)
  fix s assume s: "s < n" and ne: "(if c then xs[k := y] else xs) ! s \<noteq> -1"
  show "Q s ((if c then xs[k := y] else xs) ! s)"
  proof (cases "c \<and> s = k \<and> k < length xs")
    case True
    with new show ?thesis by simp
  next
    case False
    then have "(if c then xs[k := y] else xs) ! s = xs ! s"
      by (auto simp: list_update_beyond)
    with old s ne show ?thesis by simp
  qed
qed

lemma link_node_linked:
  assumes g: "fully_defined_grid g" and cc: "concat g = x # xs"
    and n: "n = nat (fold max xs x + 1)"
    and inv: "linked_grid g n nb"
    and i: "i < length g" and j: "j < length (hd g)"
  shows "\<exists>nb'. link_node [g] (0, i, j) nb = Inr nb' \<and> linked_grid g n nb'"
proof -
  let ?v = "g ! i ! j"
  let ?k = "nat ?v"
  have e: "entry [g] 0 a b = g ! a ! b" for a b by (simp add: entry_def)
  from g i j have m: "?v \<in> set (concat g)" by (rule grid_member)
  note vn = grid_node [OF g cc m]
  from vn(1,2) have kn: "?k < n" unfolding n by linarith
  from vn(1) have ik: "int ?k = ?v" by simp
  from vn(1) have v1: "?v \<noteq> -1" by simp
  from inv have len: "graphs_of_length n nb" by (simp add: linked_grid_def)
  then have lw: "length (west_neibor nb) = n" by (simp add: graphs_of_length_def)
  from vn(1) kn lw have ok: "np_ok (west_neibor nb) ?v" by (simp add: np_ok_nat)
  have nonneg: "0 \<le> g ! a ! b" if "a < length g" and "b < length (hd g)" for a b
  proof -
    from g that have "g ! a ! b \<in> set (concat g)" by (rule grid_member)
    then show ?thesis by (rule fully_defined_gridD(5) [OF g])
  qed
  let ?hw = "1 \<le> j"
  let ?he = "j + 1 < length (hd g)"
  let ?hs = "1 \<le> i"
  let ?hn = "i + 1 < length g"
  have hw: "(1 \<le> j \<and> entry [g] 0 i (j - 1) \<noteq> -1) = ?hw"
  proof (cases ?hw)
    case True
    from j have "j - 1 < length (hd g)" by simp
    from nonneg [OF i this] have "entry [g] 0 i (j - 1) \<noteq> -1" by (simp add: e)
    with True show ?thesis by simp
  next
    case False
    then show ?thesis by simp
  qed
  have he: "(j + 1 < n_cols [g] \<and> entry [g] 0 i (j + 1) \<noteq> -1) = ?he"
  proof (cases ?he)
    case True
    from nonneg [OF i this] have "entry [g] 0 i (j + 1) \<noteq> -1" by (simp add: e)
    with True show ?thesis by (simp add: grid_shape(3) [OF g])
  next
    case False
    then show ?thesis by (simp add: grid_shape(3) [OF g])
  qed
  have hs: "(1 \<le> i \<and> entry [g] 0 (i - 1) j \<noteq> -1) = ?hs"
  proof (cases ?hs)
    case True
    from i have "i - 1 < length g" by simp
    from nonneg [OF this j] have "entry [g] 0 (i - 1) j \<noteq> -1" by (simp add: e)
    with True show ?thesis by simp
  next
    case False
    then show ?thesis by simp
  qed
  have hn: "(i + 1 < n_rows [g] \<and> entry [g] 0 (i + 1) j \<noteq> -1) = ?hn"
  proof (cases ?hn)
    case True
    from nonneg [OF this j] have "entry [g] 0 (i + 1) j \<noteq> -1" by (simp add: e)
    with True show ?thesis by (simp add: grid_shape(2) [OF g])
  next
    case False
    then show ?thesis by (simp add: grid_shape(2) [OF g])
  qed
  define nb' where "nb' =
     \<lparr>east_neibor = (if ?he then (east_neibor nb)[?k := g ! i ! (j + 1)] else east_neibor nb),
      west_neibor = (if ?hw then (west_neibor nb)[?k := g ! i ! (j - 1)] else west_neibor nb),
      north_neibor = (if ?hn then (north_neibor nb)[?k := g ! (i + 1) ! j] else north_neibor nb),
      south_neibor = (if ?hs then (south_neibor nb)[?k := g ! (i - 1) ! j] else south_neibor nb)\<rparr>"
  have step: "link_node [g] (0, i, j) nb = Inr nb'"
    unfolding link_node_def prod.case Let_def hw he hs hn nb'_def
    using v1 ok vn(1) by (simp add: e np_set_nat)
  have l': "graphs_of_length n nb'"
    using len by (simp add: nb'_def graphs_of_length_def)
  from inv have
    oldn: "\<forall>s<n. north_neibor nb ! s \<noteq> -1 \<longrightarrow>
           (\<exists>i j. i + 1 < length g \<and> j < length (hd g) \<and> g ! i ! j = int s
                  \<and> north_neibor nb ! s = g ! (i + 1) ! j)"
    and olds: "\<forall>s<n. south_neibor nb ! s \<noteq> -1 \<longrightarrow>
           (\<exists>i j. i + 1 < length g \<and> j < length (hd g) \<and> g ! (i + 1) ! j = int s
                  \<and> south_neibor nb ! s = g ! i ! j)"
    and olde: "\<forall>s<n. east_neibor nb ! s \<noteq> -1 \<longrightarrow>
           (\<exists>i j. i < length g \<and> j + 1 < length (hd g) \<and> g ! i ! j = int s
                  \<and> east_neibor nb ! s = g ! i ! (j + 1))"
    and oldw: "\<forall>s<n. west_neibor nb ! s \<noteq> -1 \<longrightarrow>
           (\<exists>i j. i < length g \<and> j + 1 < length (hd g) \<and> g ! i ! (j + 1) = int s
                  \<and> west_neibor nb ! s = g ! i ! j)"
    unfolding linked_grid_def by blast+
  have newn: "\<forall>s<n. north_neibor nb' ! s \<noteq> -1 \<longrightarrow>
           (\<exists>i j. i + 1 < length g \<and> j < length (hd g) \<and> g ! i ! j = int s
                  \<and> north_neibor nb' ! s = g ! (i + 1) ! j)"
    unfolding nb'_def neighbors.simps
  proof (rule update_linked [where Q = "\<lambda>s y. \<exists>i j. i + 1 < length g \<and> j < length (hd g)
       \<and> g ! i ! j = int s \<and> y = g ! (i + 1) ! j", OF oldn])
    assume "?hn"
    with j ik show "\<exists>i' j'. i' + 1 < length g \<and> j' < length (hd g) \<and> g ! i' ! j' = int ?k
                  \<and> g ! (i + 1) ! j = g ! (i' + 1) ! j'"
      by (intro exI [of _ i] exI [of _ j]) simp
  qed
  have news: "\<forall>s<n. south_neibor nb' ! s \<noteq> -1 \<longrightarrow>
           (\<exists>i j. i + 1 < length g \<and> j < length (hd g) \<and> g ! (i + 1) ! j = int s
                  \<and> south_neibor nb' ! s = g ! i ! j)"
    unfolding nb'_def neighbors.simps
  proof (rule update_linked [where Q = "\<lambda>s y. \<exists>i j. i + 1 < length g \<and> j < length (hd g)
       \<and> g ! (i + 1) ! j = int s \<and> y = g ! i ! j", OF olds])
    assume "?hs"
    with i have "i - 1 + 1 < length g" and "g ! (i - 1 + 1) ! j = int ?k" using ik by simp_all
    with j show "\<exists>i' j'. i' + 1 < length g \<and> j' < length (hd g) \<and> g ! (i' + 1) ! j' = int ?k
                  \<and> g ! (i - 1) ! j = g ! i' ! j'"
      by (intro exI [of _ "i - 1"] exI [of _ j]) simp
  qed
  have newe: "\<forall>s<n. east_neibor nb' ! s \<noteq> -1 \<longrightarrow>
           (\<exists>i j. i < length g \<and> j + 1 < length (hd g) \<and> g ! i ! j = int s
                  \<and> east_neibor nb' ! s = g ! i ! (j + 1))"
    unfolding nb'_def neighbors.simps
  proof (rule update_linked [where Q = "\<lambda>s y. \<exists>i j. i < length g \<and> j + 1 < length (hd g)
       \<and> g ! i ! j = int s \<and> y = g ! i ! (j + 1)", OF olde])
    assume "?he"
    with i ik show "\<exists>i' j'. i' < length g \<and> j' + 1 < length (hd g) \<and> g ! i' ! j' = int ?k
                  \<and> g ! i ! (j + 1) = g ! i' ! (j' + 1)"
      by (intro exI [of _ i] exI [of _ j]) simp
  qed
  have neww: "\<forall>s<n. west_neibor nb' ! s \<noteq> -1 \<longrightarrow>
           (\<exists>i j. i < length g \<and> j + 1 < length (hd g) \<and> g ! i ! (j + 1) = int s
                  \<and> west_neibor nb' ! s = g ! i ! j)"
    unfolding nb'_def neighbors.simps
  proof (rule update_linked [where Q = "\<lambda>s y. \<exists>i j. i < length g \<and> j + 1 < length (hd g)
       \<and> g ! i ! (j + 1) = int s \<and> y = g ! i ! j", OF oldw])
    assume "?hw"
    with j have "j - 1 + 1 < length (hd g)" and "g ! i ! (j - 1 + 1) = int ?k" using ik by simp_all
    with i show "\<exists>i' j'. i' < length g \<and> j' + 1 < length (hd g) \<and> g ! i' ! (j' + 1) = int ?k
                  \<and> g ! i ! (j - 1) = g ! i' ! j'"
      by (intro exI [of _ i] exI [of _ "j - 1"]) simp
  qed
  from l' newn news newe neww have "linked_grid g n nb'"
    unfolding linked_grid_def by blast
  with step show ?thesis by blast
qed

lemma connection_graphs_grid:
  assumes g: "fully_defined_grid g" and cc: "concat g = x # xs"
    and n: "n = nat (fold max xs x + 1)"
  shows "\<exists>nb. connection_graphs [g] n = Inr nb \<and> linked_grid g n nb"
  unfolding connection_graphs_def
proof (rule for_each_total)
  show "linked_grid g n \<lparr>east_neibor = replicate n (-1), west_neibor = replicate n (-1),
        north_neibor = replicate n (-1), south_neibor = replicate n (-1)\<rparr>"
    by (simp add: linked_grid_def graphs_of_length_def)
next
  fix p s
  assume p: "p \<in> set (List.product [0..<n_sections [g]]
                      (List.product [0..<n_rows [g]] [0..<n_cols [g]]))"
    and inv: "linked_grid g n s"
  from p obtain i j where pij: "p = (0, i, j)" and i: "i < length g" and j: "j < length (hd g)"
    by (auto simp: grid_shape(1,2,3) [OF g])
  from g cc n inv i j show "\<exists>s'. link_node [g] p s = Inr s' \<and> linked_grid g n s'"
    unfolding pij by (rule link_node_linked)
qed

lemma mark_node_grid:
  assumes g: "fully_defined_grid g" and cc: "concat g = x # xs"
    and n: "n = nat (fold max xs x + 1)"
    and f: "factor \<noteq> 0" and e: "east_west_factors ! i \<noteq> 0"
    and inv: "marks_ok n marks"
    and i: "i < length g" and j: "j < length (hd g)"
  shows "\<exists>marks'. mark_node [g] factor east_west_factors 0 i j marks = Inr marks'
           \<and> marks_ok n marks'"
proof -
  obtain mr mc where m: "marks = (mr, mc)" by (cases marks)
  let ?v = "g ! i ! j"
  from g i j have mem: "?v \<in> set (concat g)" by (rule grid_member)
  note vn = grid_node [OF g cc mem]
  from vn(1,2) have kn: "nat ?v < n" unfolding n by linarith
  from vn(1) have v1: "?v \<noteq> -1" by simp
  from inv have lr: "length mr = n + 1" and lc: "length mc = n" and last: "\<not> mr ! n"
    by (simp_all add: marks_ok_def m)
  from vn(1) kn lr have ok1: "np_ok mr ?v" by (simp add: np_ok_nat)
  from vn(1) kn lc have ok2: "np_ok mc ?v" by (simp add: np_ok_nat)
  from kn have ne: "nat ?v \<noteq> n" by simp
  show ?thesis
    unfolding m mark_node_def prod.case Let_def
    using v1 f e ok1 ok2 vn(1) lr lc last ne
    by (simp add: entry_def np_set_nat marks_ok_def)
qed

lemma mark_row_grid:
  assumes g: "fully_defined_grid g" and cc: "concat g = x # xs"
    and n: "n = nat (fold max xs x + 1)"
    and f: "factor \<noteq> 0" and len: "length g \<le> length east_west_factors"
    and e: "\<forall>i<length g. east_west_factors ! i \<noteq> 0"
    and inv: "marks_ok n marks"
    and i: "i < length g"
  shows "\<exists>marks'. mark_row [g] factor east_west_factors (0, i) marks = Inr marks'
           \<and> marks_ok n marks'"
proof -
  from i len have "\<not> length east_west_factors \<le> i" by simp
  then have row: "mark_row [g] factor east_west_factors (0, i) marks
      = for_each (mark_node [g] factor east_west_factors 0 i) [0..<n_cols [g]] marks"
    by (simp add: mark_row_def)
  from e i have ei: "east_west_factors ! i \<noteq> 0" by simp
  show ?thesis unfolding row
  proof (rule for_each_total)
    show "marks_ok n marks" by (rule inv)
  next
    fix j s
    assume "j \<in> set [0..<n_cols [g]]" and s: "marks_ok n s"
    then have j: "j < length (hd g)" by (simp add: grid_shape(3) [OF g])
    from g cc n f ei s i j
    show "\<exists>s'. mark_node [g] factor east_west_factors 0 i j s = Inr s' \<and> marks_ok n s'"
      by (rule mark_node_grid)
  qed
qed

lemma neighbour_range:
  assumes g: "fully_defined_grid g" and cc: "concat g = x # xs"
    and n: "n = nat (fold max xs x + 1)"
    and linked: "linked_grid g n nb"
  shows "\<forall>e \<in> set (east_neibor nb). e = -1 \<or> (0 \<le> e \<and> e < int n)"
    and "\<forall>e \<in> set (west_neibor nb). e = -1 \<or> (0 \<le> e \<and> e < int n)"
    and "\<forall>e \<in> set (north_neibor nb). e = -1 \<or> (0 \<le> e \<and> e < int n)"
    and "\<forall>e \<in> set (south_neibor nb). e = -1 \<or> (0 \<le> e \<and> e < int n)"
proof -
  have range: "0 \<le> g ! a ! b \<and> g ! a ! b < int n" if "a < length g" and "b < length (hd g)" for a b
  proof -
    from g that have "g ! a ! b \<in> set (concat g)" by (rule grid_member)
    from grid_node(1,2) [OF g cc this] show ?thesis by (simp add: n)
  qed
  from linked have len: "length (east_neibor nb) = n" "length (west_neibor nb) = n"
    "length (north_neibor nb) = n" "length (south_neibor nb) = n"
    by (simp_all add: linked_grid_def graphs_of_length_def)
  show "\<forall>e \<in> set (east_neibor nb). e = -1 \<or> (0 \<le> e \<and> e < int n)"
  proof
    fix e assume "e \<in> set (east_neibor nb)"
    then obtain s where s: "s < n" and es: "e = east_neibor nb ! s"
      using len(1) by (auto simp: in_set_conv_nth)
    show "e = -1 \<or> (0 \<le> e \<and> e < int n)"
    proof (cases "e = -1")
      case False
      with linked s es obtain a b where "a < length g" "b + 1 < length (hd g)"
        "e = g ! a ! (b + 1)" unfolding linked_grid_def by blast
      with range [of a "b + 1"] show ?thesis by simp
    qed simp
  qed
  show "\<forall>e \<in> set (west_neibor nb). e = -1 \<or> (0 \<le> e \<and> e < int n)"
  proof
    fix e assume "e \<in> set (west_neibor nb)"
    then obtain s where s: "s < n" and es: "e = west_neibor nb ! s"
      using len(2) by (auto simp: in_set_conv_nth)
    show "e = -1 \<or> (0 \<le> e \<and> e < int n)"
    proof (cases "e = -1")
      case False
      with linked s es obtain a b where "a < length g" "b + 1 < length (hd g)"
        "e = g ! a ! b" unfolding linked_grid_def by blast
      with range [of a b] show ?thesis by simp
    qed simp
  qed
  show "\<forall>e \<in> set (north_neibor nb). e = -1 \<or> (0 \<le> e \<and> e < int n)"
  proof
    fix e assume "e \<in> set (north_neibor nb)"
    then obtain s where s: "s < n" and es: "e = north_neibor nb ! s"
      using len(3) by (auto simp: in_set_conv_nth)
    show "e = -1 \<or> (0 \<le> e \<and> e < int n)"
    proof (cases "e = -1")
      case False
      with linked s es obtain a b where "a + 1 < length g" "b < length (hd g)"
        "e = g ! (a + 1) ! b" unfolding linked_grid_def by blast
      with range [of "a + 1" b] show ?thesis by simp
    qed simp
  qed
  show "\<forall>e \<in> set (south_neibor nb). e = -1 \<or> (0 \<le> e \<and> e < int n)"
  proof
    fix e assume "e \<in> set (south_neibor nb)"
    then obtain s where s: "s < n" and es: "e = south_neibor nb ! s"
      using len(4) by (auto simp: in_set_conv_nth)
    show "e = -1 \<or> (0 \<le> e \<and> e < int n)"
    proof (cases "e = -1")
      case False
      with linked s es obtain a b where "a + 1 < length g" "b < length (hd g)"
        "e = g ! a ! b" unfolding linked_grid_def by blast
      with range [of a b] show ?thesis by simp
    qed simp
  qed
qed

lemma choose_keys_grid:
  assumes g: "fully_defined_grid g" and cc: "concat g = x # xs"
    and n: "n = nat (fold max xs x + 1)"
    and f: "factor \<noteq> 0" and len: "length g \<le> length east_west_factors"
    and e: "\<forall>i<length g. east_west_factors ! i \<noteq> 0"
    and linked: "linked_grid g n nb"
  shows "\<exists>hdn isd. choose_keys [g] factor east_west_factors n nb = Inr (hdn, isd)
           \<and> length hdn = n + 1 \<and> length isd = n \<and> \<not> hdn ! n
           \<and> (\<forall>s<n. north_neibor nb ! s = -1 \<or> south_neibor nb ! s = -1 \<longrightarrow> hdn ! s)
           \<and> (\<forall>s<n. hdn ! s \<and> \<not> isd ! s \<longrightarrow>
                 np_nth hdn (east_neibor nb ! s) \<and> np_nth hdn (west_neibor nb ! s))"
proof -
  have "\<exists>marks. for_each (mark_row [g] factor east_west_factors)
             (List.product [0..<n_sections [g]] [0..<n_rows [g]])
             (replicate (n + 1) False, replicate n False) = Inr marks \<and> marks_ok n marks"
  proof (rule for_each_total)
    show "marks_ok n (replicate (n + 1) False, replicate n False)"
      unfolding marks_ok_def fst_conv snd_conv
      using nth_replicate [of n "n + 1" False] by simp
  next
    fix p s
    assume "p \<in> set (List.product [0..<n_sections [g]] [0..<n_rows [g]])"
      and s: "marks_ok n s"
    then obtain i where p: "p = (0, i)" and i: "i < length g"
      by (auto simp: grid_shape(1,2) [OF g])
    from g cc n f len e s i
    show "\<exists>s'. mark_row [g] factor east_west_factors p s = Inr s' \<and> marks_ok n s'"
      unfolding p by (rule mark_row_grid)
  qed
  then obtain mr mc where loop: "for_each (mark_row [g] factor east_west_factors)
             (List.product [0..<n_sections [g]] [0..<n_rows [g]])
             (replicate (n + 1) False, replicate n False) = Inr (mr, mc)"
    and lr: "length mr = n + 1" and lc: "length mc = n" and last: "\<not> mr ! n"
    by (auto simp: marks_ok_def)
  from linked have ln: "length (east_neibor nb) = n" "length (west_neibor nb) = n"
    "length (north_neibor nb) = n" "length (south_neibor nb) = n"
    by (simp_all add: linked_grid_def graphs_of_length_def)
  define hdn where "hdn = map2 (\<lambda>d (n, s). d \<or> n = -1 \<or> s = -1) (butlast mr)
                  (zip (north_neibor nb) (south_neibor nb)) @ [last mr]"
  define isd0 where "isd0 = map2 (\<lambda>d (e, w). d \<or> \<not> np_nth hdn e \<or> \<not> np_nth hdn w)
                       mc (zip (east_neibor nb) (west_neibor nb))"
  define isd where "isd = map2 (\<lambda>d r. d \<and> r) isd0 (butlast hdn)"
  have lh: "length hdn = n + 1" using lr ln by (simp add: hdn_def)
  have l0: "length isd0 = n" using lc ln by (simp add: isd0_def)
  have li: "length isd = n" using l0 lh by (simp add: isd_def)
  from lr have mr_ne: "mr \<noteq> []" by auto
  have hlast: "\<not> hdn ! n"
  proof -
    have "hdn ! n = last mr" using lr ln by (simp add: hdn_def nth_append)
    also have "\<dots> = mr ! n" using lr mr_ne by (simp add: last_conv_nth)
    finally show ?thesis using last by simp
  qed
  have hs: "hdn ! s = (mr ! s \<or> north_neibor nb ! s = -1 \<or> south_neibor nb ! s = -1)"
    if "s < n" for s
    using that lr ln by (simp add: hdn_def nth_append nth_butlast)
  have oke: "\<forall>e \<in> set (east_neibor nb). np_ok hdn e"
    using neighbour_range(1) [OF g cc n linked] lh by (auto simp: np_ok_def)
  have okw: "\<forall>w \<in> set (west_neibor nb). np_ok hdn w"
    using neighbour_range(2) [OF g cc n linked] lh by (auto simp: np_ok_def)
  have ck: "choose_keys [g] factor east_west_factors n nb = Inr (hdn, isd)"
    unfolding choose_keys_def loop sum.case prod.case Let_def
    using oke okw by (simp add: hdn_def isd0_def isd_def)
  have isd_nth: "isd ! s = ((mc ! s \<or> \<not> np_nth hdn (east_neibor nb ! s)
                         \<or> \<not> np_nth hdn (west_neibor nb ! s)) \<and> hdn ! s)"
    if "s < n" for s
    using that lc ln lh l0 by (simp add: isd_def isd0_def nth_butlast)
  from ck lh li hlast hs isd_nth show ?thesis by blast
qed

lemma walk_returns:
  fixes rank :: "int \<Rightarrow> nat"
  assumes ok: "\<forall>s \<in> T. np_ok until s \<and> np_ok progression s"
    and step: "\<forall>s \<in> T. \<not> np_nth until s \<longrightarrow>
                 np_nth progression s \<in> T \<and> np_nth progression s \<noteq> s
                 \<and> rank (np_nth progression s) < rank s"
    and start: "set frum \<subseteq> T"
  shows "\<exists>ref dst. follow_graph progression frum until = Some (Inr (ref, dst))
           \<and> set ref \<subseteq> T \<and> (\<forall>s \<in> set ref. np_nth until s)"
proof -
  from ok step have closed: "\<forall>s \<in> T. np_ok until s \<and> np_ok progression s
            \<and> (\<not> np_nth until s \<longrightarrow>
                  np_nth progression s \<in> T \<and> np_nth progression s \<noteq> s
                  \<and> rank (np_nth progression s) < rank s)"
    by blast
  from follow_graph_loop_returns [OF closed start, of "replicate (length frum) 0"]
  obtain ref dst where ret: "follow_graph progression frum until = Some (Inr (ref, dst))"
    and sub: "set ref \<subseteq> T"
    unfolding follow_graph_def by blast
  from follow_graph_result [OF ret] have "\<forall>s \<in> set ref. np_nth until s" by blast
  with ret sub show ?thesis by blast
qed

lemma interpolation_grid:
  assumes g: "fully_defined_grid g" and cc: "concat g = x # xs"
    and n: "n = nat (fold max xs x + 1)"
    and linked: "linked_grid g n nb"
    and lh: "length hdn = n + 1" and li: "length isd = n" and hlast: "\<not> hdn ! n"
    and edge: "\<forall>s<n. north_neibor nb ! s = -1 \<or> south_neibor nb ! s = -1 \<longrightarrow> hdn ! s"
    and inner: "\<forall>s<n. hdn ! s \<and> \<not> isd ! s \<longrightarrow>
                 np_nth hdn (east_neibor nb ! s) \<and> np_nth hdn (west_neibor nb ! s)"
  shows "\<exists>di dw. interpolation nb hdn isd n = Some (Inr (di, dw))"
proof -
  let ?R = "length g" and ?C = "length (hd g)"
  define S where "S = {s. 0 \<le> s \<and> s < int n}"
  define T where "T = {s \<in> S. np_nth hdn s}"
  define row where "row = (\<lambda>s. THE i. i < ?R \<and> (\<exists>j<?C. g ! i ! j = s))"
  define col where "col = (\<lambda>s. THE j. j < ?C \<and> (\<exists>i<?R. g ! i ! j = s))"
  have row: "row (g ! i ! j) = i" if "i < ?R" and "j < ?C" for i j
    unfolding row_def
  proof (rule the_equality)
    from that show "i < ?R \<and> (\<exists>j'<?C. g ! i ! j' = g ! i ! j)" by blast
  next
    fix i' assume "i' < ?R \<and> (\<exists>j'<?C. g ! i' ! j' = g ! i ! j)"
    then obtain j' where "i' < ?R" "j' < ?C" "g ! i' ! j' = g ! i ! j" by blast
    with grid_injective [OF g this(1,2) that] show "i' = i" by simp
  qed
  have col: "col (g ! i ! j) = j" if "i < ?R" and "j < ?C" for i j
    unfolding col_def
  proof (rule the_equality)
    from that show "j < ?C \<and> (\<exists>i'<?R. g ! i' ! j = g ! i ! j)" by blast
  next
    fix j' assume "j' < ?C \<and> (\<exists>i'<?R. g ! i' ! j' = g ! i ! j)"
    then obtain i' where "i' < ?R" "j' < ?C" "g ! i' ! j' = g ! i ! j" by blast
    with grid_injective [OF g this(1,2) that] show "j' = j" by simp
  qed
  have inS: "g ! i ! j \<in> S" if "i < ?R" and "j < ?C" for i j
  proof -
    from g that have "g ! i ! j \<in> set (concat g)" by (rule grid_member)
    from grid_node(1,2) [OF g cc this] show ?thesis by (simp add: S_def n)
  qed
  from linked have ln: "length (east_neibor nb) = n" "length (west_neibor nb) = n"
    "length (north_neibor nb) = n" "length (south_neibor nb) = n"
    by (simp_all add: linked_grid_def graphs_of_length_def)
  have in_range: "0 \<le> s \<and> nat s < n \<and> int (nat s) = s" if "s \<in> S" for s
    using that by (auto simp: S_def)
  have idx: "np_nth ys s = ys ! nat s" if "s \<in> S" for s and ys :: "'a list"
    using that by (simp add: S_def np_nth_nonneg)
  have okS: "np_ok hdn s \<and> np_ok isd s \<and> np_ok (north_neibor nb) s \<and> np_ok (south_neibor nb) s
             \<and> np_ok (east_neibor nb) s \<and> np_ok (west_neibor nb) s" if "s \<in> S" for s
    using that lh li ln by (simp add: S_def np_ok_def)
  have TS: "T \<subseteq> S" by (auto simp: T_def)
  have minus1: "\<not> np_nth hdn (-1)"
    using hlast lh by (simp add: np_nth_def np_pos_def)

  have north_step: "\<forall>s \<in> S. \<not> np_nth hdn s \<longrightarrow>
                 np_nth (north_neibor nb) s \<in> S \<and> np_nth (north_neibor nb) s \<noteq> s
                 \<and> ?R - row (np_nth (north_neibor nb) s) < ?R - row s"
  proof (intro ballI impI)
    fix s assume s: "s \<in> S" and na: "\<not> np_nth hdn s"
    note r = in_range [OF s]
    from na have "\<not> hdn ! nat s" by (simp add: idx [OF s])
    with edge r have "north_neibor nb ! nat s \<noteq> -1" by blast
    with linked r obtain i j where ij: "i + 1 < ?R" "j < ?C" "g ! i ! j = s"
      and nx: "north_neibor nb ! nat s = g ! (i + 1) ! j"
      unfolding linked_grid_def by (metis (no_types, lifting))
    from ij have i: "i < ?R" by simp
    have nxt: "np_nth (north_neibor nb) s = g ! (i + 1) ! j" by (simp add: idx [OF s] nx)
    have "g ! (i + 1) ! j \<noteq> g ! i ! j"
    proof
      assume "g ! (i + 1) ! j = g ! i ! j"
      from grid_injective [OF g ij(1,2) i ij(2) this] show False by simp
    qed
    moreover have "row (g ! (i + 1) ! j) = i + 1" using ij by (simp only: row)
    moreover have "row s = i" using row [OF i ij(2)] ij(3) by simp
    ultimately show "np_nth (north_neibor nb) s \<in> S \<and> np_nth (north_neibor nb) s \<noteq> s
                 \<and> ?R - row (np_nth (north_neibor nb) s) < ?R - row s"
      unfolding nxt using inS [OF ij(1,2)] ij by simp
  qed
  have south_step: "\<forall>s \<in> S. \<not> np_nth hdn s \<longrightarrow>
                 np_nth (south_neibor nb) s \<in> S \<and> np_nth (south_neibor nb) s \<noteq> s
                 \<and> row (np_nth (south_neibor nb) s) < row s"
  proof (intro ballI impI)
    fix s assume s: "s \<in> S" and na: "\<not> np_nth hdn s"
    note r = in_range [OF s]
    from na have "\<not> hdn ! nat s" by (simp add: idx [OF s])
    with edge r have "south_neibor nb ! nat s \<noteq> -1" by blast
    with linked r obtain i j where ij: "i + 1 < ?R" "j < ?C" "g ! (i + 1) ! j = s"
      and nx: "south_neibor nb ! nat s = g ! i ! j"
      unfolding linked_grid_def by (metis (no_types, lifting))
    from ij have i: "i < ?R" by simp
    have nxt: "np_nth (south_neibor nb) s = g ! i ! j" by (simp add: idx [OF s] nx)
    have "g ! i ! j \<noteq> g ! (i + 1) ! j"
    proof
      assume "g ! i ! j = g ! (i + 1) ! j"
      from grid_injective [OF g i ij(2) ij(1,2) this] show False by simp
    qed
    moreover have "row (g ! i ! j) = i" using i ij(2) by (simp only: row)
    moreover have "row s = i + 1" using row [OF ij(1,2)] ij(3) by simp
    ultimately show "np_nth (south_neibor nb) s \<in> S \<and> np_nth (south_neibor nb) s \<noteq> s
                 \<and> row (np_nth (south_neibor nb) s) < row s"
      unfolding nxt using inS [OF i ij(2)] ij by simp
  qed
  have east_step: "\<forall>s \<in> T. \<not> np_nth isd s \<longrightarrow>
                 np_nth (east_neibor nb) s \<in> T \<and> np_nth (east_neibor nb) s \<noteq> s
                 \<and> ?C - col (np_nth (east_neibor nb) s) < ?C - col s"
  proof (intro ballI impI)
    fix s assume sT: "s \<in> T" and na: "\<not> np_nth isd s"
    from sT have s: "s \<in> S" and h: "np_nth hdn s" by (simp_all add: T_def)
    note r = in_range [OF s]
    from na have "\<not> isd ! nat s" by (simp add: idx [OF s])
    moreover from h have "hdn ! nat s" by (simp add: idx [OF s])
    ultimately have nh: "np_nth hdn (east_neibor nb ! nat s)" using inner r by blast
    with minus1 have "east_neibor nb ! nat s \<noteq> -1" by auto
    with linked r obtain i j where ij: "i < ?R" "j + 1 < ?C" "g ! i ! j = s"
      and nx: "east_neibor nb ! nat s = g ! i ! (j + 1)"
      unfolding linked_grid_def by (metis (no_types, lifting))
    from ij have j: "j < ?C" by simp
    have nxt: "np_nth (east_neibor nb) s = g ! i ! (j + 1)" by (simp add: idx [OF s] nx)
    have "g ! i ! (j + 1) \<noteq> g ! i ! j"
    proof
      assume "g ! i ! (j + 1) = g ! i ! j"
      from grid_injective [OF g ij(1,2) ij(1) j this] show False by simp
    qed
    moreover have "col (g ! i ! (j + 1)) = j + 1" using ij by (simp only: col)
    moreover have "col s = j" using col [OF ij(1) j] ij(3) by simp
    moreover have "g ! i ! (j + 1) \<in> T" using inS [OF ij(1,2)] nh nx by (simp add: T_def)
    ultimately show "np_nth (east_neibor nb) s \<in> T \<and> np_nth (east_neibor nb) s \<noteq> s
                 \<and> ?C - col (np_nth (east_neibor nb) s) < ?C - col s"
      unfolding nxt using ij by simp
  qed
  have west_step: "\<forall>s \<in> T. \<not> np_nth isd s \<longrightarrow>
                 np_nth (west_neibor nb) s \<in> T \<and> np_nth (west_neibor nb) s \<noteq> s
                 \<and> col (np_nth (west_neibor nb) s) < col s"
  proof (intro ballI impI)
    fix s assume sT: "s \<in> T" and na: "\<not> np_nth isd s"
    from sT have s: "s \<in> S" and h: "np_nth hdn s" by (simp_all add: T_def)
    note r = in_range [OF s]
    from na have "\<not> isd ! nat s" by (simp add: idx [OF s])
    moreover from h have "hdn ! nat s" by (simp add: idx [OF s])
    ultimately have nh: "np_nth hdn (west_neibor nb ! nat s)" using inner r by blast
    with minus1 have "west_neibor nb ! nat s \<noteq> -1" by auto
    with linked r obtain i j where ij: "i < ?R" "j + 1 < ?C" "g ! i ! (j + 1) = s"
      and nx: "west_neibor nb ! nat s = g ! i ! j"
      unfolding linked_grid_def by (metis (no_types, lifting))
    from ij have j: "j < ?C" by simp
    have nxt: "np_nth (west_neibor nb) s = g ! i ! j" by (simp add: idx [OF s] nx)
    have "g ! i ! j \<noteq> g ! i ! (j + 1)"
    proof
      assume "g ! i ! j = g ! i ! (j + 1)"
      from grid_injective [OF g ij(1) j ij(1,2) this] show False by simp
    qed
    moreover have "col (g ! i ! j) = j" using ij(1) j by (simp only: col)
    moreover have "col s = j + 1" using col [OF ij(1,2)] ij(3) by simp
    moreover have "g ! i ! j \<in> T" using inS [OF ij(1) j] nh nx by (simp add: T_def)
    ultimately show "np_nth (west_neibor nb) s \<in> T \<and> np_nth (west_neibor nb) s \<noteq> s
                 \<and> col (np_nth (west_neibor nb) s) < col s"
      unfolding nxt using ij by simp
  qed

  have start: "set (map int [0..<n]) \<subseteq> S" by (auto simp: S_def)
  have okN: "\<forall>s \<in> S. np_ok hdn s \<and> np_ok (north_neibor nb) s" using okS by blast
  have okSo: "\<forall>s \<in> S. np_ok hdn s \<and> np_ok (south_neibor nb) s" using okS by blast
  have okE: "\<forall>s \<in> T. np_ok isd s \<and> np_ok (east_neibor nb) s" using okS TS by blast
  have okW: "\<forall>s \<in> T. np_ok isd s \<and> np_ok (west_neibor nb) s" using okS TS by blast
  from walk_returns [OF okN north_step start] obtain n_ref n_dist where
    nw: "follow_graph (north_neibor nb) (map int [0..<n]) hdn = Some (Inr (n_ref, n_dist))"
    and nS: "set n_ref \<subseteq> S" and nA: "\<forall>s \<in> set n_ref. np_nth hdn s" by blast
  from nS nA have nT: "set n_ref \<subseteq> T" by (auto simp: T_def)
  from walk_returns [OF okE east_step nT] obtain ne_ref ne_dist where
    ne: "follow_graph (east_neibor nb) n_ref isd = Some (Inr (ne_ref, ne_dist))" by blast
  from walk_returns [OF okW west_step nT] obtain nw_ref nw_dist where
    nwe: "follow_graph (west_neibor nb) n_ref isd = Some (Inr (nw_ref, nw_dist))" by blast
  from walk_returns [OF okSo south_step start] obtain s_ref s_dist where
    sw: "follow_graph (south_neibor nb) (map int [0..<n]) hdn = Some (Inr (s_ref, s_dist))"
    and sS: "set s_ref \<subseteq> S" and sA: "\<forall>s \<in> set s_ref. np_nth hdn s" by blast
  from sS sA have sT: "set s_ref \<subseteq> T" by (auto simp: T_def)
  from walk_returns [OF okE east_step sT] obtain se_ref se_dist where
    se: "follow_graph (east_neibor nb) s_ref isd = Some (Inr (se_ref, se_dist))" by blast
  from walk_returns [OF okW west_step sT] obtain sw_ref sw_dist where
    swe: "follow_graph (west_neibor nb) s_ref isd = Some (Inr (sw_ref, sw_dist))" by blast
  show ?thesis
    by (simp add: interpolation_def and_then_def nw ne nwe sw se swe Let_def case_prod_beta)
qed

lemma mesh_skeleton_returns:
  assumes g: "fully_defined_grid g" and f: "factor \<noteq> 0"
    and len: "length g \<le> length east_west_factors"
    and e: "\<forall>i<length g. east_west_factors ! i \<noteq> 0"
  shows "\<exists>reduce restoration.
           mesh_skeleton [g] factor east_west_factors = Some (Inr (reduce, restoration))"
proof -
  from fully_defined_gridD(1,2) [OF g] obtain r rs where "g = r # rs" and "r \<noteq> []"
    by (cases g) auto
  then have "concat g \<noteq> []" by simp
  then obtain x xs where cc: "concat g = x # xs" by (cases "concat g") auto
  define n where "n = nat (fold max xs x + 1)"
  have "x \<in> set (concat g)" by (simp add: cc)
  note xn = grid_node [OF g cc this]
  from xn(1,2) have n1: "0 < n" unfolding n_def by linarith
  from connection_graphs_grid [OF g cc n_def] obtain nb where
    nb: "connection_graphs [g] n = Inr nb" and linked: "linked_grid g n nb" by blast
  from choose_keys_grid [OF g cc n_def f len e linked] obtain hdn isd where
    ck: "choose_keys [g] factor east_west_factors n nb = Inr (hdn, isd)"
    and lh: "length hdn = n + 1" and li: "length isd = n" and hlast: "\<not> hdn ! n"
    and edge: "\<forall>s<n. north_neibor nb ! s = -1 \<or> south_neibor nb ! s = -1 \<longrightarrow> hdn ! s"
    and inner: "\<forall>s<n. hdn ! s \<and> \<not> isd ! s \<longrightarrow>
                 np_nth hdn (east_neibor nb ! s) \<and> np_nth hdn (west_neibor nb ! s)"
    by blast
  from interpolation_grid [OF g cc n_def linked lh li hlast edge inner] obtain di dw where
    ip: "interpolation nb hdn isd n = Some (Inr (di, dw))" by blast
  from li n1 have "reindex_of isd \<noteq> []" using reindex_of_length [of isd] by auto
  then obtain q qs where re: "reindex_of isd = q # qs" by (cases "reindex_of isd") auto
  have cc3: "concat (concat [g]) = x # xs" by (simp add: cc)
  from xn(3) have nonneg: "\<not> fold max xs x + 1 < 0" by simp
  show ?thesis
    unfolding mesh_skeleton_def cc3 list.case if_not_P [OF nonneg] Let_def
    by (simp add: nb [unfolded n_def] ck [unfolded n_def] re ip [unfolded n_def] and_then_def)
qed

subsection \<open>Restoration after reduction on fully defined grids\<close>

text \<open>
  Claim C3.  On every fully defined grid (one section whose entries are different node
  indices; factor and column strides not zero, a latitude for every row)
  \<open>mesh_skeleton\<close> returns a pair (reduce, restore).  And whenever it returns such a pair,
  on a fully defined grid or any other lookup table:
  \<^item> reduce is the restriction to the key nodes \<open>is_defined\<close>, which has one entry for
    each node index up to the largest in the table, and restore has one row of four
    references into the reduced vector and four weights for each node;
  \<^item> the four weights of every node are non-negative and sum to 1;
  \<^item> for any positions vector, \<open>restore @ (reduce @ positions)\<close> equals \<open>positions\<close> at
    every key node, and at every node it is the combination, with the node's four
    weights, of the positions of four key nodes.
\<close>

theorem mesh_skeleton_restores:
  "(fully_defined lookup_table \<and> factor \<noteq> 0
      \<and> n_rows lookup_table \<le> length east_west_factors
      \<and> (\<forall>i<n_rows lookup_table. east_west_factors ! i \<noteq> 0)
    \<longrightarrow> (\<exists>reduce restoration.
           mesh_skeleton lookup_table factor east_west_factors
             = Some (Inr (reduce, restoration))))
 \<and> (\<forall>reduce restoration.
      mesh_skeleton lookup_table factor east_west_factors = Some (Inr (reduce, restoration))
    \<longrightarrow> (\<exists>is_defined n_partial refs weights.
          reduce = Restriction is_defined
        \<and> restoration = FromCoordinates n_partial refs weights
        \<and> int (length is_defined) = Max (set (concat (concat lookup_table))) + 1
        \<and> n_partial = count_true is_defined
        \<and> length refs = length is_defined \<and> length weights = length is_defined
        \<and> (\<forall>k<length is_defined.
              length (refs ! k) = 4 \<and> length (weights ! k) = 4
            \<and> (\<forall>r \<in> set (refs ! k). 0 \<le> r \<and> r < int n_partial)
            \<and> (\<forall>w \<in> set (weights ! k). 0 \<le> w)
            \<and> sum_list (weights ! k) = 1)
        \<and> (\<forall>positions. length positions = length is_defined \<longrightarrow>
              length (matmul reduce positions) = n_partial
            \<and> length (matmul restoration (matmul reduce positions)) = length is_defined
            \<and> (\<forall>k<length is_defined.
                  (is_defined ! k \<longrightarrow>
                     matmul restoration (matmul reduce positions) ! k = positions ! k)
                \<and> (\<exists>keys. length keys = 4
                      \<and> (\<forall>c<4. keys ! c < length is_defined \<and> is_defined ! (keys ! c))
                      \<and> matmul restoration (matmul reduce positions) ! k
                          = weighted_sum positions (map int keys) (weights ! k))))))"
proof (intro conjI impI allI)
  assume a: "fully_defined lookup_table \<and> factor \<noteq> 0
      \<and> n_rows lookup_table \<le> length east_west_factors
      \<and> (\<forall>i<n_rows lookup_table. east_west_factors ! i \<noteq> 0)"
  then obtain g where t: "lookup_table = [g]" and g: "fully_defined_grid g"
    by (cases lookup_table) (auto simp: fully_defined_def)
  from a have f: "factor \<noteq> 0" by blast
  from a have len: "length g \<le> length east_west_factors"
    and e: "\<forall>i<length g. east_west_factors ! i \<noteq> 0"
    by (simp_all add: t n_rows_def)
  from g f len e
  show "\<exists>reduce restoration.
           mesh_skeleton lookup_table factor east_west_factors
             = Some (Inr (reduce, restoration))"
    unfolding t by (rule mesh_skeleton_returns)
next
  fix reduce restoration
  assume "mesh_skeleton lookup_table factor east_west_factors
            = Some (Inr (reduce, restoration))"
  then show "\<exists>is_defined n_partial refs weights.
          reduce = Restriction is_defined
        \<and> restoration = FromCoordinates n_partial refs weights
        \<and> int (length is_defined) = Max (set (concat (concat lookup_table))) + 1
        \<and> n_partial = count_true is_defined
        \<and> length refs = length is_defined \<and> length weights = length is_defined
        \<and> (\<forall>k<length is_defined.
              length (refs ! k) = 4 \<and> length (weights ! k) = 4
            \<and> (\<forall>r \<in> set (refs ! k). 0 \<le> r \<and> r < int n_partial)
            \<and> (\<forall>w \<in> set (weights ! k). 0 \<le> w)
            \<and> sum_list (weights ! k) = 1)
        \<and> (\<forall>positions. length positions = length is_defined \<longrightarrow>
              length (matmul reduce positions) = n_partial
            \<and> length (matmul restoration (matmul reduce positions)) = length is_defined
            \<and> (\<forall>k<length is_defined.
                  (is_defined ! k \<longrightarrow>
                     matmul restoration (matmul reduce positions) ! k = positions ! k)
                \<and> (\<exists>keys. length keys = 4
                      \<and> (\<forall>c<4. keys ! c < length is_defined \<and> is_defined ! (keys ! c))
                      \<and> matmul restoration (matmul reduce positions) ! k
                          = weighted_sum positions (map int keys) (weights ! k))))"
    by (rule restoration_of_result)
qed

lemma grid5_fully_defined: "fully_defined grid5"
  by code_simp

theorem mesh_skeleton_restores_witness:
  "fully_defined grid5 \<and> n_rows grid5 \<le> length [2, 2, 2, 2, 2 :: int]
   \<and> mesh_skeleton grid5 2 [2, 2, 2, 2, 2] =
       Some (Inr (Restriction grid5_keys, FromCoordinates 9 grid5_refs grid5_weits))
   \<and> int (length grid5_keys) = Max (set (concat (concat grid5))) + 1
   \<and> count_true grid5_keys = 9"
proof -
  note t = mesh_skeleton_restores [of grid5 2 "[2, 2, 2, 2, 2]"]
  have rows: "n_rows grid5 \<le> length [2, 2, 2, 2, 2 :: int]" by code_simp
  from t grid5_result have "\<exists>is_defined n_partial refs weights.
          Restriction grid5_keys = Restriction is_defined
        \<and> FromCoordinates 9 grid5_refs grid5_weits = FromCoordinates n_partial refs weights
        \<and> int (length is_defined) = Max (set (concat (concat grid5))) + 1
        \<and> n_partial = count_true is_defined"
    by blast
  then have "int (length grid5_keys) = Max (set (concat (concat grid5))) + 1"
    and "count_true grid5_keys = 9" by auto
  with grid5_fully_defined rows grid5_result show ?thesis by blast
qed
section \<open>Properties of the node and cell enumerator\<close>

subsection \<open>enumerate_cells\<close>

lemma keep_first_subset: "set (keep_first key xs) \<subseteq> set xs"
  by (induction key xs rule: keep_first.induct) auto

lemma keep_first_keys: "key ` set (keep_first key xs) = key ` set xs"
  by (induction key xs rule: keep_first.induct) auto

lemma keep_first_distinct:
  fixes key :: "'a \<Rightarrow> 'k::linorder"
  assumes "sorted (map key xs)"
  shows "distinct (map key (keep_first key xs))"
  using assms
proof (induction key xs rule: keep_first.induct)
  case (1 key)
  then show ?case by simp
next
  case (2 key x)
  then show ?case by simp
next
  case (3 key x y ys)
  show ?case
  proof (cases "key x = key y")
    case True
    from "3.prems" have "sorted (map key (x # ys))" by simp
    with True "3.IH"(1) show ?thesis by simp
  next
    case False
    from "3.prems" have s: "sorted (map key (y # ys))" by simp
    have "key x \<notin> key ` set (keep_first key (y # ys))"
    proof
      assume "key x \<in> key ` set (keep_first key (y # ys))"
      then have "key x \<in> key ` set (y # ys)" by (simp only: keep_first_keys)
      then obtain z where z: "z \<in> set (y # ys)" and kz: "key x = key z" by blast
      from "3.prems" have "key x \<le> key y" by simp
      moreover from "3.prems" z have "key y \<le> key z" by auto
      ultimately show False using False kz by simp
    qed
    with False "3.IH"(2) s show ?thesis by simp
  qed
qed

lemma image_Collect_key: "f ` {x \<in> A. P (f x)} = {k \<in> f ` A. P k}"
  by blast

lemma unique_first_set: "set (unique_first key xs) \<subseteq> set xs"
  unfolding unique_first_def using keep_first_subset [of key "sort_key key xs"] by simp

lemma unique_first_keys: "key ` set (unique_first key xs) = key ` set xs"
  unfolding unique_first_def by (simp add: keep_first_keys)

lemma unique_first_distinct: "distinct (map key (unique_first key xs))"
  unfolding unique_first_def by (rule keep_first_distinct) simp

lemma pole_cells:
  "enumerate_cells pole_table =
     [\<lparr>cell_h = 0, cell_i = 1, cell_j = 0, west_node = 0, east_node = 1,
       south_node = 0, north_node = 2\<rparr>,
      \<lparr>cell_h = 0, cell_i = 1, cell_j = 0, west_node = 0, east_node = 1,
       south_node = 3, north_node = 0\<rparr>,
      \<lparr>cell_h = 0, cell_i = 1, cell_j = 1, west_node = 0, east_node = 1,
       south_node = 3, north_node = 1\<rparr>]"
  by code_simp

text \<open>
  Claim C8.  Every cell in the list that \<open>enumerate_cells\<close> returns has four corner
  indices different from \<open>-1\<close> and different west and east corners.  The list holds no
  two cells with the same four corners, and its corner tuples are exactly those of the
  candidate cells that meet both conditions: the other candidates are removed by a filter,
  after the deduplication by the four-corner tuple, and the function has no error to
  raise for them.
\<close>

theorem enumerate_cells_valid:
  "(\<forall>c \<in> set (enumerate_cells node_indices).
      west_node c \<noteq> -1 \<and> east_node c \<noteq> -1 \<and> south_node c \<noteq> -1 \<and> north_node c \<noteq> -1
      \<and> west_node c \<noteq> east_node c)
   \<and> distinct (map four_corners (enumerate_cells node_indices))
   \<and> set (map four_corners (enumerate_cells node_indices)) =
       {k \<in> set (map (four_corners \<circ> cand_cell) (candidate_cells node_indices)).
          (case k of (w, e, s, n) \<Rightarrow> w \<noteq> -1 \<and> e \<noteq> -1 \<and> s \<noteq> -1 \<and> n \<noteq> -1 \<and> w \<noteq> e)}"
proof -
  let ?u = "unique_first corners (candidate_cells node_indices)"
  let ?ok = "\<lambda>c. \<not> (missing_node c \<or> degenerate c)"
  have c: "corners = four_corners \<circ> cand_cell"
    by (rule ext) (simp add: corners_def four_corners_def)
  have 1: "\<forall>c \<in> set (enumerate_cells node_indices).
      west_node c \<noteq> -1 \<and> east_node c \<noteq> -1 \<and> south_node c \<noteq> -1 \<and> north_node c \<noteq> -1
      \<and> west_node c \<noteq> east_node c"
    by (auto simp: enumerate_cells_def missing_node_def degenerate_def)
  have "distinct (map corners (filter ?ok ?u))"
    by (rule distinct_map_filter) (rule unique_first_distinct)
  then have 2: "distinct (map four_corners (enumerate_cells node_indices))"
    by (simp add: enumerate_cells_def c)
  have k: "corners ` set ?u = corners ` set (candidate_cells node_indices)"
    by (rule unique_first_keys)
  have ok: "?ok x \<longleftrightarrow> (case corners x of (w, e, s, n) \<Rightarrow>
                w \<noteq> -1 \<and> e \<noteq> -1 \<and> s \<noteq> -1 \<and> n \<noteq> -1 \<and> w \<noteq> e)" for x
    by (auto simp: corners_def missing_node_def degenerate_def)
  have "corners ` {x \<in> set ?u. ?ok x} =
        {k \<in> corners ` set ?u. case k of (w, e, s, n) \<Rightarrow>
                w \<noteq> -1 \<and> e \<noteq> -1 \<and> s \<noteq> -1 \<and> n \<noteq> -1 \<and> w \<noteq> e}"
    unfolding ok by (rule image_Collect_key)
  then have 3: "set (map four_corners (enumerate_cells node_indices)) =
       {k \<in> set (map (four_corners \<circ> cand_cell) (candidate_cells node_indices)).
          (case k of (w, e, s, n) \<Rightarrow> w \<noteq> -1 \<and> e \<noteq> -1 \<and> s \<noteq> -1 \<and> n \<noteq> -1 \<and> w \<noteq> e)}"
    unfolding k by (simp add: enumerate_cells_def c image_image)
  from 1 2 3 show ?thesis by blast
qed

theorem enumerate_cells_valid_witness:
  "length (enumerate_cells pole_table) = 3
   \<and> distinct (map four_corners (enumerate_cells pole_table))
   \<and> west_node (enumerate_cells pole_table ! 0) \<noteq> east_node (enumerate_cells pole_table ! 0)"
  using enumerate_cells_valid [of pole_table] by (simp add: pole_cells)

subsection \<open>enumerate_nodes\<close>

lemma present_rows_set: "set (List.map_filter (\<lambda>e. e) rows) = {p. Some p \<in> set rows}"
  by (induction rows) (auto split: option.splits)

lemma sorted_positions_set:
  "set (sorted_positions rows) = {p. Some p \<in> set rows}"
  by (simp add: sorted_positions_def present_rows_set)

lemma sorted_positions_sorted: "sorted (sorted_positions rows)"
  by (simp add: sorted_positions_def)

lemma sorted_positions_distinct: "distinct (sorted_positions rows)"
  by (simp add: sorted_positions_def)

lemma index_of_less: "y \<in> set xs \<Longrightarrow> index_of xs y < length xs \<and> xs ! index_of xs y = y"
  by (induction xs) auto

lemma index_of_append_in: "y \<in> set xs \<Longrightarrow> index_of (xs @ ys) y = index_of xs y"
  by (induction xs) auto

lemma index_of_append_notin:
  "y \<notin> set xs \<Longrightarrow> index_of (xs @ ys) y = length xs + index_of ys y"
  by (induction xs) auto

lemma index_of_map_Some: "index_of (map Some ps) (Some p) = index_of ps p"
  by (induction ps) auto

lemma nan_rows_present:
  "filter (\<lambda>k. (map Some ps @ rest) ! k = None) [0..<length ps] = []"
  by (simp add: filter_empty_conv nth_append)

lemma nan_rows:
  "filter (\<lambda>k. unique_rows rows ! k = None) [0..<length (unique_rows rows)] =
     (if None \<in> set rows then [length (sorted_positions rows)] else [])"
proof (cases "None \<in> set rows")
  case True
  then have u: "unique_rows rows = map Some (sorted_positions rows) @ [None]"
    by (simp add: unique_rows_def)
  have "filter (\<lambda>k. (map Some (sorted_positions rows) @ [None]) ! k = None)
          [0..<length (sorted_positions rows)] = []"
    by (rule nan_rows_present)
  then show ?thesis using True unfolding u by (simp add: nth_append)
next
  case False
  then have u: "unique_rows rows = map Some (sorted_positions rows) @ []"
    by (simp add: unique_rows_def)
  have "filter (\<lambda>k. (map Some (sorted_positions rows) @ []) ! k = None)
          [0..<length (sorted_positions rows)] = []"
    by (rule nan_rows_present)
  then show ?thesis using False unfolding u by simp
qed

lemma node_index_of_entry:
  assumes "e \<in> set rows"
  shows "(if int (index_of (unique_rows rows) e) \<ge> int (length (sorted_positions rows))
          then -1 else int (index_of (unique_rows rows) e))
         = (case e of None \<Rightarrow> -1 | Some p \<Rightarrow> int (index_of (sorted_positions rows) p))"
proof (cases e)
  case None
  with assms have "unique_rows rows = map Some (sorted_positions rows) @ [None]"
    by (simp add: unique_rows_def)
  moreover have "None \<notin> set (map Some (sorted_positions rows))" by auto
  ultimately have "index_of (unique_rows rows) None = length (sorted_positions rows)"
    by (simp add: index_of_append_notin)
  with None show ?thesis by simp
next
  case (Some p)
  with assms have p: "p \<in> set (sorted_positions rows)" by (simp add: sorted_positions_set)
  then have "Some p \<in> set (map Some (sorted_positions rows))" by simp
  then have "index_of (unique_rows rows) (Some p) = index_of (sorted_positions rows) p"
    unfolding unique_rows_def by (simp add: index_of_append_in index_of_map_Some)
  moreover from p have "index_of (sorted_positions rows) p < length (sorted_positions rows)"
    by (simp add: index_of_less)
  ultimately show ?thesis using Some by simp
qed

lemma map3_cong:
  assumes "\<And>e. e \<in> set (concat (concat m)) \<Longrightarrow> f e = g e"
  shows "map (map (map f)) m = map (map (map g)) m"
  using assms by (auto intro!: map_cong)

text \<open>
  Claim C9.  \<open>enumerate_nodes\<close> succeeds only when the grid contains an absent (NaN)
  position.  Then it returns the sorted list of the different positions, without
  duplicates, and the lookup table in which every absent entry is \<open>-1\<close> and every other
  entry is the index of its position in that list; a grid of absent entries only gives
  the empty list.  On a grid with no absent entry the lookup of the first NaN row raises
  IndexError.
\<close>

theorem enumerate_nodes_cases:
  "enumerate_nodes mesh =
     (if None \<in> set (concat (concat mesh))
      then Inr (map (map (map (\<lambda>e. case e of None \<Rightarrow> -1
                  | Some p \<Rightarrow> int (index_of (sorted_positions (concat (concat mesh))) p)))) mesh,
                map Some (sorted_positions (concat (concat mesh))))
      else Inl IndexError)
   \<and> sorted (sorted_positions (concat (concat mesh)))
   \<and> distinct (sorted_positions (concat (concat mesh)))
   \<and> set (sorted_positions (concat (concat mesh))) = {p. Some p \<in> set (concat (concat mesh))}
   \<and> (\<forall>p. Some p \<in> set (concat (concat mesh)) \<longrightarrow>
         index_of (sorted_positions (concat (concat mesh))) p
           < length (sorted_positions (concat (concat mesh)))
       \<and> sorted_positions (concat (concat mesh))
           ! index_of (sorted_positions (concat (concat mesh))) p = p)
   \<and> ((\<forall>e \<in> set (concat (concat mesh)). e = None) \<longrightarrow>
         sorted_positions (concat (concat mesh)) = [])"
proof -
  let ?rows = "concat (concat mesh)"
  let ?ps = "sorted_positions ?rows"
  have main: "enumerate_nodes mesh =
     (if None \<in> set ?rows
      then Inr (map (map (map (\<lambda>e. case e of None \<Rightarrow> -1
                  | Some p \<Rightarrow> int (index_of ?ps p)))) mesh, map Some ?ps)
      else Inl IndexError)"
  proof (cases "None \<in> set ?rows")
    case False
    then show ?thesis by (simp add: enumerate_nodes_def Let_def nan_rows)
  next
    case True
    have t: "take (length ?ps) (unique_rows ?rows) = map Some ?ps"
      by (simp add: unique_rows_def)
    have "map (map (map (\<lambda>k. if k \<ge> int (length ?ps) then -1 else k)))
            (map (map (map (\<lambda>e. int (index_of (unique_rows ?rows) e)))) mesh)
          = map (map (map (\<lambda>e. if int (index_of (unique_rows ?rows) e) \<ge> int (length ?ps)
                                then -1 else int (index_of (unique_rows ?rows) e)))) mesh"
      by (simp add: comp_def)
    also have "\<dots> = map (map (map (\<lambda>e. case e of None \<Rightarrow> -1
                  | Some p \<Rightarrow> int (index_of ?ps p)))) mesh"
      by (rule map3_cong) (rule node_index_of_entry)
    finally show ?thesis using True
      by (simp add: enumerate_nodes_def Let_def nan_rows t)
  qed
  have idx: "\<forall>p. Some p \<in> set ?rows \<longrightarrow>
         index_of ?ps p < length ?ps \<and> ?ps ! index_of ?ps p = p"
    using index_of_less [of _ ?ps] by (simp add: sorted_positions_set)
  have empty: "(\<forall>e \<in> set ?rows. e = None) \<longrightarrow> ?ps = []"
  proof
    assume "\<forall>e \<in> set ?rows. e = None"
    then have "set ?ps = {}" unfolding sorted_positions_set by auto
    then show "?ps = []" by simp
  qed
  from main idx empty sorted_positions_sorted [of ?rows] sorted_positions_distinct [of ?rows]
    sorted_positions_set [of ?rows]
  show ?thesis by blast
qed

lemma sorted_positions_gap:
  "sorted_positions [Some (1, 0), Some (0, 0), None, Some (1, 0)] = [(0, 0), (1, 0)]"
  by code_simp

theorem enumerate_nodes_cases_witness:
  "enumerate_nodes mesh_with_gap = Inr ([[[1, 0], [-1, 1]]], [Some (0, 0), Some (1, 0)])
   \<and> enumerate_nodes mesh_without_gap = Inl IndexError
   \<and> enumerate_nodes [[[None, None]]] = Inr ([[[-1, -1]]], [])"
proof -
  have 1: "enumerate_nodes mesh_with_gap = Inr ([[[1, 0], [-1, 1]]], [Some (0, 0), Some (1, 0)])"
    using enumerate_nodes_cases [of mesh_with_gap]
    by (simp add: mesh_with_gap_def sorted_positions_gap)
  have 2: "enumerate_nodes mesh_without_gap = Inl IndexError"
    using enumerate_nodes_cases [of mesh_without_gap] by (simp add: mesh_without_gap_def)
  have 3: "enumerate_nodes [[[None, None]]] = Inr ([[[-1, -1]]], [])"
    using enumerate_nodes_cases [of "[[[None, None]]]"] by simp
  from 1 2 3 show ?thesis by blast
qed

end
